theory Spec2Isabelle
  imports Main
begin

text \<open>
  A Markdown todo application: tasks are kept in a database or in Markdown files, and a
  project can be read and rewritten as one Markdown document. This theory embeds the
  handler that stores a resubmitted document (the PUT route for raw Markdown) and the
  patterns of the constants module, and proves what the handler and the patterns do. The
  parser, the renderer and the recurrence rule, whose modules are not at hand, are
  written from the design and examined in the same way.
\<close>

section \<open>Data model\<close>

text \<open>
  The task model of the application: a task carries an id, its display content, a status,
  an optional due date (a \<open>YYYY-MM-DD\<close> string), an optional repeat frequency, the raw
  line and line number it was parsed from, an optional parent id and its ordered subtasks.
  The status strings \<open>'todo'\<close>, \<open>'doing'\<close>, \<open>'done'\<close> and the frequencies \<open>'daily'\<close>,
  \<open>'weekly'\<close>, \<open>'monthly'\<close> are enumerations. (The optional \<open>parentContent\<close> of the task
  schema plays no part in what follows and is left out.)
\<close>

datatype task_status = Todo | Doing | Done

datatype frequency = Daily | Weekly | Monthly

datatype task =
  Task (task_id: string) (content: string) (status: task_status)
       (dueDate: "string option") (repeatFrequency: "frequency option")
       (rawLine: string) (lineNumber: nat) (parentId: "string option")
       (subtasks: "task list")

record project =
  project_id :: string
  title :: string
  path :: string
  tasks :: "task list"

section \<open>The raw-Markdown route: PUT /api/v1/projects/[projectId]/raw\<close>

subsection \<open>Values and collaborators\<close>

text \<open>The parsed JSON body of a request. An object is the list of its own properties.\<close>

datatype json =
  JNull | JBool bool | JNum int | JStr string | JArr "json list" | JObj "(string \<times> json) list"

text \<open>
  Everything the handler can catch; the handler logs the caught value and answers every
  one alike.
\<close>

datatype error = TypeError | ParseValidationError nat string | OtherError string

text \<open>
  \<open>const { content } = body\<close>: destructuring \<open>null\<close> throws a TypeError; an object yields
  its \<open>content\<close> property or \<open>undefined\<close> (\<open>None\<close>); booleans, numbers, strings and
  arrays of a JSON body have no such property.
\<close>

fun destructure_content :: "json \<Rightarrow> error + json option" where
  "destructure_content JNull = Inl TypeError"
| "destructure_content (JObj kvs) = Inr (map_of kvs ''content'')"
| "destructure_content _ = Inr None"

text \<open>\<open>typeof content === 'string'\<close>, returning the string.\<close>

fun typeof_string :: "json option \<Rightarrow> string option" where
  "typeof_string (Some (JStr s)) = Some s"
| "typeof_string _ = None"

record validation =
  valid :: bool
  error :: "string option"

text \<open>
  The calls to collaborators that the handler makes and that matter here: the parse, the
  three store operations of the database adapter and the file write.
  \<open>UpdateTask\<close> carries exactly the properties of the object literal passed to
  \<open>updateTask\<close>: content, status, dueDate, repeatFrequency. \<open>AddTask\<close> carries the six
  arguments of \<open>addTask\<close>: projectId, content, status, dueDate, parentId, repeatFrequency.
\<close>

datatype call =
  ParseMarkdown string string string
| DeleteTask string
| UpdateTask string string task_status "string option" "frequency option"
| AddTask string string task_status "string option" "string option" "frequency option"
| WriteFile string string

text \<open>
  The collaborators, none of which is part of the route's own code: they are parameters.
  A collaborator that can throw returns a sum. \<open>call_throws\<close> says, of the calls issued so
  far (the last one being the call in question), whether that last call throws.
\<close>

record deps =
  validateProjectId :: "string \<Rightarrow> validation"
  auth :: "error + string option"
  getProject :: "string \<Rightarrow> string \<Rightarrow> error + project option"
  parseMarkdown :: "string \<Rightarrow> string \<Rightarrow> string \<Rightarrow> error + project"
  call_throws :: "call list \<Rightarrow> bool"
  getUserDataDir :: "string option \<Rightarrow> error + string"
  path_join :: "string \<Rightarrow> string \<Rightarrow> string"
  validateFilePath :: "string \<Rightarrow> bool"
  existsSync :: "string \<Rightarrow> bool"

record process_env =
  NEXT_PUBLIC_SUPABASE_URL :: "string option"
  NEXT_PUBLIC_SUPABASE_ANON_KEY :: "string option"
  SUPABASE_SERVICE_ROLE_KEY :: "string option"
  USE_SUPABASE :: "string option"

text \<open>JavaScript truthiness of an environment variable or a user id: set and not empty.\<close>

fun truthy :: "string option \<Rightarrow> bool" where
  "truthy None = False"
| "truthy (Some s) = (s \<noteq> [])"

definition useSupabase :: "process_env \<Rightarrow> bool" where
  "useSupabase e =
     ((truthy (NEXT_PUBLIC_SUPABASE_URL e) \<and> truthy (NEXT_PUBLIC_SUPABASE_ANON_KEY e) \<and>
       truthy (SUPABASE_SERVICE_ROLE_KEY e)) \<and> USE_SUPABASE e = Some ''true'')"

record request =
  req_projectId :: string
  req_json :: "error + json"

datatype body = ErrorBody "string option" | SuccessBody

record response =
  resp_body :: body
  resp_status :: nat

subsection \<open>JavaScript Map keyed by task id\<close>

text \<open>
  A \<open>Map\<close> iterates in insertion order; \<open>set\<close> on a key already present replaces the
  value and keeps the key's place.
\<close>

fun map_set :: "('k \<times> 'v) list \<Rightarrow> 'k \<Rightarrow> 'v \<Rightarrow> ('k \<times> 'v) list" where
  "map_set [] k v = [(k, v)]"
| "map_set ((k', v') # m) k v =
     (if k' = k then (k', v) # m else (k', v') # map_set m k v)"

definition map_has :: "('k \<times> 'v) list \<Rightarrow> 'k \<Rightarrow> bool" where
  "map_has m k = (k \<in> set (map fst m))"

text \<open>
  \<open>mapExistingTasks\<close> and \<open>mapNewTasks\<close> are the same walk over a forest (each task, then
  its subtasks when there are any), each filling its own map.
\<close>

fun mapTask :: "task \<Rightarrow> (string \<times> task) list \<Rightarrow> (string \<times> task) list"
  and mapTasks :: "task list \<Rightarrow> (string \<times> task) list \<Rightarrow> (string \<times> task) list" where
  "mapTask (Task i c s d r rl ln p subs) m =
     (let m' = map_set m i (Task i c s d r rl ln p subs)
      in if subs \<noteq> [] then mapTasks subs m' else m')"
| "mapTasks [] m = m"
| "mapTasks (t # ts) m = mapTasks ts (mapTask t m)"

definition mapExistingTasks :: "task list \<Rightarrow> (string \<times> task) list" where
  "mapExistingTasks ts = mapTasks ts []"

definition mapNewTasks :: "task list \<Rightarrow> (string \<times> task) list" where
  "mapNewTasks ts = mapTasks ts []"

subsection \<open>The synchronisation loops\<close>

text \<open>
  Both loops await each store call in turn. The trace \<open>tr\<close> is the list of calls issued so
  far; a call that throws ends the loop (the flag is \<open>False\<close>) with the call on the trace.
\<close>

fun delete_loop ::
  "(call list \<Rightarrow> bool) \<Rightarrow> (string \<times> task) list \<Rightarrow> (string \<times> task) list \<Rightarrow> call list
   \<Rightarrow> call list \<times> bool" where
  "delete_loop thr newTaskMap [] tr = (tr, True)"
| "delete_loop thr newTaskMap ((taskId, existingTask) # rest) tr =
     (if \<not> map_has newTaskMap taskId then
        (let tr' = tr @ [DeleteTask taskId]
         in if thr tr' then (tr', False) else delete_loop thr newTaskMap rest tr')
      else delete_loop thr newTaskMap rest tr)"

definition upsert_call :: "string \<Rightarrow> (string \<times> task) list \<Rightarrow> string \<Rightarrow> task \<Rightarrow> call" where
  "upsert_call projectId existingTaskMap taskId newTask =
     (if map_has existingTaskMap taskId then
        UpdateTask taskId (content newTask) (status newTask) (dueDate newTask)
          (repeatFrequency newTask)
      else
        AddTask projectId (content newTask) (status newTask) (dueDate newTask)
          (parentId newTask) (repeatFrequency newTask))"

fun upsert_loop ::
  "(call list \<Rightarrow> bool) \<Rightarrow> string \<Rightarrow> (string \<times> task) list \<Rightarrow> (string \<times> task) list
   \<Rightarrow> call list \<Rightarrow> call list \<times> bool" where
  "upsert_loop thr projectId existingTaskMap [] tr = (tr, True)"
| "upsert_loop thr projectId existingTaskMap ((taskId, newTask) # rest) tr =
     (let tr' = tr @ [upsert_call projectId existingTaskMap taskId newTask]
      in if thr tr' then (tr', False)
         else upsert_loop thr projectId existingTaskMap rest tr')"

text \<open>
  The responses: what the \<open>catch\<close> block returns (with the calls issued before the
  throw), an error body with a status, and \<open>{ success: true }\<close>.
\<close>

definition caught :: "call list \<Rightarrow> response \<times> call list" where
  "caught tr =
     (\<lparr>resp_body = ErrorBody (Some ''Failed to save project content''), resp_status = 500\<rparr>, tr)"

definition json_error :: "string option \<Rightarrow> nat \<Rightarrow> response" where
  "json_error msg code = \<lparr>resp_body = ErrorBody msg, resp_status = code\<rparr>"

definition json_success :: response where
  "json_success = \<lparr>resp_body = SuccessBody, resp_status = 200\<rparr>"

text \<open>
  The task synchronisation of the database branch, from the two forests to the response:
  the two maps are built, then the deletions are issued, then the updates and additions.
  (Between the maps and the loops the handler compares the two titles; the branch is empty
  and changes nothing.)
\<close>

definition sync_tasks ::
  "(call list \<Rightarrow> bool) \<Rightarrow> string \<Rightarrow> task list \<Rightarrow> task list \<Rightarrow> call list
   \<Rightarrow> response \<times> call list" where
  "sync_tasks thr projectId existing parsed tr =
     (let existingTaskMap = mapExistingTasks existing;
          newTaskMap = mapNewTasks parsed
      in case delete_loop thr newTaskMap existingTaskMap tr of
           (tr1, False) \<Rightarrow> caught tr1
         | (tr1, True) \<Rightarrow>
             (case upsert_loop thr projectId existingTaskMap newTaskMap tr1 of
                (tr2, False) \<Rightarrow> caught tr2
              | (tr2, True) \<Rightarrow> (json_success, tr2)))"

subsection \<open>The handler\<close>

text \<open>
  The two branches of the handler after the body check, and the handler itself. Every
  throw inside the handler ends in its \<open>catch\<close> block. The handler returns the response
  and the calls it has issued.
\<close>

definition PUT_supabase :: "deps \<Rightarrow> string \<Rightarrow> string \<Rightarrow> response \<times> call list" where
  "PUT_supabase d projectId content' =
     (case auth d of
        Inl e \<Rightarrow> caught []
      | Inr None \<Rightarrow> (json_error (Some ''Unauthorized'') 401, [])
      | Inr (Some userId) \<Rightarrow>
          if \<not> truthy (Some userId) then (json_error (Some ''Unauthorized'') 401, [])
          else
            (case getProject d projectId userId of
               Inl e \<Rightarrow> caught []
             | Inr None \<Rightarrow> (json_error (Some ''Project not found'') 404, [])
             | Inr (Some proj) \<Rightarrow>
                 (let tr = [ParseMarkdown projectId content' '''']
                  in case parseMarkdown d projectId content' '''' of
                       Inl e \<Rightarrow> caught tr
                     | Inr parsedProject \<Rightarrow>
                         sync_tasks (call_throws d) projectId (tasks proj)
                           (tasks parsedProject) tr)))"

definition PUT_file :: "deps \<Rightarrow> string \<Rightarrow> string \<Rightarrow> response \<times> call list" where
  "PUT_file d projectId content' =
     (case auth d of
        Inl e \<Rightarrow> caught []
      | Inr userId \<Rightarrow>
          (case getUserDataDir d userId of
             Inl e \<Rightarrow> caught []
           | Inr dataDir \<Rightarrow>
               (let filePath = path_join d dataDir (projectId @ ''.md'')
                in if \<not> validateFilePath d filePath
                   then (json_error (Some ''Invalid file path'') 400, [])
                   else if \<not> existsSync d filePath
                   then (json_error (Some ''Project not found'') 404, [])
                   else
                     (let tr = [WriteFile filePath content']
                      in if call_throws d tr then caught tr else (json_success, tr)))))"

definition PUT :: "deps \<Rightarrow> process_env \<Rightarrow> request \<Rightarrow> response \<times> call list" where
  "PUT d e r =
     (let projectId = req_projectId r;
          projectIdValidation = validateProjectId d projectId
      in if \<not> valid projectIdValidation
         then (json_error (error projectIdValidation) 400, [])
         else
           (case req_json r of
              Inl ex \<Rightarrow> caught []
            | Inr body \<Rightarrow>
                (case destructure_content body of
                   Inl ex \<Rightarrow> caught []
                 | Inr c \<Rightarrow>
                     (case typeof_string c of
                        None \<Rightarrow> (json_error (Some ''Content must be a string'') 400, [])
                      | Some content' \<Rightarrow>
                          if useSupabase e then PUT_supabase d projectId content'
                          else PUT_file d projectId content'))))"

subsection \<open>The catch block\<close>

text \<open>
  The \<open>catch\<close> block binds the value thrown inside the \<open>try\<close> block to \<open>error\<close>, passes it
  to \<open>console.error\<close> and only then returns the fixed response. The functions below give
  that value, along the same branches as the functions above, and \<open>None\<close> when nothing is
  thrown. What the request, the destructuring, the session, the project lookup, the data
  directory or the parser throws is an \<open>error\<close>; of what a store call or the file write
  throws, the model keeps the call that threw.
\<close>

datatype thrown = Thrown error | ThrownBy call

definition sync_tasks_thrown ::
  "(call list \<Rightarrow> bool) \<Rightarrow> string \<Rightarrow> task list \<Rightarrow> task list \<Rightarrow> call list
   \<Rightarrow> thrown option" where
  "sync_tasks_thrown thr projectId existing parsed tr =
     (let existingTaskMap = mapExistingTasks existing;
          newTaskMap = mapNewTasks parsed
      in case delete_loop thr newTaskMap existingTaskMap tr of
           (tr1, False) \<Rightarrow> Some (ThrownBy (last tr1))
         | (tr1, True) \<Rightarrow>
             (case upsert_loop thr projectId existingTaskMap newTaskMap tr1 of
                (tr2, False) \<Rightarrow> Some (ThrownBy (last tr2))
              | (tr2, True) \<Rightarrow> None))"

definition PUT_supabase_thrown :: "deps \<Rightarrow> string \<Rightarrow> string \<Rightarrow> thrown option" where
  "PUT_supabase_thrown d projectId content' =
     (case auth d of
        Inl ex \<Rightarrow> Some (Thrown ex)
      | Inr None \<Rightarrow> None
      | Inr (Some userId) \<Rightarrow>
          if \<not> truthy (Some userId) then None
          else
            (case getProject d projectId userId of
               Inl ex \<Rightarrow> Some (Thrown ex)
             | Inr None \<Rightarrow> None
             | Inr (Some proj) \<Rightarrow>
                 (case parseMarkdown d projectId content' '''' of
                    Inl ex \<Rightarrow> Some (Thrown ex)
                  | Inr parsedProject \<Rightarrow>
                      sync_tasks_thrown (call_throws d) projectId (tasks proj)
                        (tasks parsedProject) [ParseMarkdown projectId content' ''''])))"

definition PUT_file_thrown :: "deps \<Rightarrow> string \<Rightarrow> string \<Rightarrow> thrown option" where
  "PUT_file_thrown d projectId content' =
     (case auth d of
        Inl ex \<Rightarrow> Some (Thrown ex)
      | Inr userId \<Rightarrow>
          (case getUserDataDir d userId of
             Inl ex \<Rightarrow> Some (Thrown ex)
           | Inr dataDir \<Rightarrow>
               (let filePath = path_join d dataDir (projectId @ ''.md'')
                in if \<not> validateFilePath d filePath then None
                   else if \<not> existsSync d filePath then None
                   else if call_throws d [WriteFile filePath content']
                   then Some (ThrownBy (WriteFile filePath content'))
                   else None)))"

definition PUT_thrown :: "deps \<Rightarrow> process_env \<Rightarrow> request \<Rightarrow> thrown option" where
  "PUT_thrown d e r =
     (let projectId = req_projectId r
      in if \<not> valid (validateProjectId d projectId) then None
         else
           (case req_json r of
              Inl ex \<Rightarrow> Some (Thrown ex)
            | Inr body \<Rightarrow>
                (case destructure_content body of
                   Inl ex \<Rightarrow> Some (Thrown ex)
                 | Inr c \<Rightarrow>
                     (case typeof_string c of
                        None \<Rightarrow> None
                      | Some content' \<Rightarrow>
                          if useSupabase e then PUT_supabase_thrown d projectId content'
                          else PUT_file_thrown d projectId content'))))"

subsection \<open>Vocabulary for stating the properties of the synchronisation\<close>

text \<open>The tasks of a forest in document order: each task, then its subtasks.\<close>

fun flatten_task :: "task \<Rightarrow> task list" and flatten :: "task list \<Rightarrow> task list" where
  "flatten_task (Task i c s d r rl ln p subs) = Task i c s d r rl ln p subs # flatten subs"
| "flatten [] = []"
| "flatten (t # ts) = flatten_task t @ flatten ts"

text \<open>The ids that occur in a forest.\<close>

definition ids :: "task list \<Rightarrow> string set" where
  "ids ts = task_id ` set (flatten ts)"

text \<open>
  The calls each loop issues when no call throws: one \<open>deleteTask\<close> per key of the
  existing map that the new map lacks, then one \<open>updateTask\<close> or \<open>addTask\<close> per entry of
  the new map.
\<close>

definition planned_deletes :: "(string \<times> task) list \<Rightarrow> (string \<times> task) list \<Rightarrow> call list" where
  "planned_deletes newTaskMap existingTaskMap =
     map DeleteTask (filter (\<lambda>k. \<not> map_has newTaskMap k) (map fst existingTaskMap))"

definition planned_upserts :: "string \<Rightarrow> (string \<times> task) list \<Rightarrow> (string \<times> task) list \<Rightarrow> call list" where
  "planned_upserts projectId existingTaskMap newTaskMap =
     map (\<lambda>(k, t). upsert_call projectId existingTaskMap k t) newTaskMap"


fun is_update :: "call \<Rightarrow> bool" where
  "is_update (UpdateTask k c s d r) = True"
| "is_update _ = False"

fun is_add :: "call \<Rightarrow> bool" where
  "is_add (AddTask p c s d q r) = True"
| "is_add _ = False"

text \<open>
  The node of a forest at a path of sibling positions (\<open>[0, 2]\<close> is the third subtask of
  the first top-level task): the path-by-position of the design's matching rule.
\<close>

fun node_at :: "task list \<Rightarrow> nat list \<Rightarrow> task option" where
  "node_at ts [] = None"
| "node_at ts [i] = (if i < length ts then Some (ts ! i) else None)"
| "node_at ts (i # p) = (if i < length ts then node_at (subtasks (ts ! i)) p else None)"

text \<open>What \<open>updateTask\<close> is given about a task: its id and the four fields.\<close>

definition core :: "task \<Rightarrow> string \<times> string \<times> task_status \<times> string option \<times> frequency option" where
  "core t = (task_id t, content t, status t, dueDate t, repeatFrequency t)"

subsection \<open>Example inputs\<close>

definition leaf :: "string \<Rightarrow> string \<Rightarrow> task" where
  "leaf i c = Task i c Todo None None (''- [ ] '' @ c) 1 None []"

definition example_existing :: "task list" where
  "example_existing =
     [Task ''a'' ''Buy milk'' Todo None None ''- [ ] Buy milk'' 3 None
        [Task ''b'' ''Pick brand'' Todo None None ''    - [ ] Pick brand'' 4 (Some ''a'') []]]"

definition example_parsed :: "task list" where
  "example_parsed =
     [Task ''a'' ''Buy oat milk'' Done (Some ''2025-11-23'') None
        ''- [x] Buy oat milk #due:2025-11-23'' 3 None [],
      Task ''c'' ''Setup'' Todo None (Some Weekly) ''- [ ] Setup #repeat:weekly'' 4 None []]"

text \<open>The tasks of \<open>example_existing\<close> with \<open>Pick brand\<close> moved to the top level.\<close>

definition example_reparented :: "task list" where
  "example_reparented =
     [Task ''a'' ''Buy milk'' Todo None None ''- [ ] Buy milk'' 3 None [],
      Task ''b'' ''Pick brand'' Todo None None ''- [ ] Pick brand'' 4 None []]"

text \<open>
  Collaborators of a signed-in user in database mode whose parse rejects every document
  with a validation error at line \<open>n\<close>.
\<close>

definition example_deps :: "nat \<Rightarrow> deps" where
  "example_deps n =
     \<lparr>validateProjectId = (\<lambda>p. \<lparr>valid = True, error = None\<rparr>),
      auth = Inr (Some ''user-1''),
      getProject = (\<lambda>p u. Inr (Some \<lparr>project_id = p, title = ''Proj'', path = '''',
                                      tasks = example_existing\<rparr>)),
      parseMarkdown = (\<lambda>p c f. Inl (ParseValidationError n ''Duplicate #due tag'')),
      call_throws = (\<lambda>t. False),
      getUserDataDir = (\<lambda>u. Inr ''data''),
      path_join = (\<lambda>a b. a @ ''/'' @ b),
      validateFilePath = (\<lambda>f. True),
      existsSync = (\<lambda>f. True)\<rparr>"

definition example_env :: process_env where
  "example_env =
     \<lparr>NEXT_PUBLIC_SUPABASE_URL = Some ''https://db.example'',
      NEXT_PUBLIC_SUPABASE_ANON_KEY = Some ''anon'',
      SUPABASE_SERVICE_ROLE_KEY = Some ''service'',
      USE_SUPABASE = Some ''true''\<rparr>"

definition example_request :: "json \<Rightarrow> request" where
  "example_request b = \<lparr>req_projectId = ''p'', req_json = Inr b\<rparr>"


section \<open>Patterns and limits (constants)\<close>

text \<open>
  The regular expressions of the constants module, each as the function that applies it
  to a string. A string is a list of characters with codes 0 to 255; the classes \<open>\d\<close>,
  \<open>\s\<close> and \<open>.\<close> are those of JavaScript on these characters: \<open>\d\<close> is \<open>0\<close> to \<open>9\<close>; \<open>\s\<close>
  is space, tab, line feed, vertical tab, form feed, carriage return and the no-break
  space; \<open>.\<close> excludes line feed and carriage return.
\<close>

definition is_digit :: "char \<Rightarrow> bool" where
  "is_digit c = (c \<in> set ''0123456789'')"

definition is_space :: "char \<Rightarrow> bool" where
  "is_space c =
     (c \<in> set [CHR '' '', CHR 0x09, CHR 0x0A, CHR 0x0B, CHR 0x0C, CHR 0x0D, CHR 0xA0])"

definition is_line_terminator :: "char \<Rightarrow> bool" where
  "is_line_terminator c = (c = CHR 0x0A \<or> c = CHR 0x0D)"

text \<open>A literal at the start of a string: the rest of the string after it, if it is there.\<close>

fun strip_prefix :: "'a list \<Rightarrow> 'a list \<Rightarrow> 'a list option" where
  "strip_prefix [] s = Some s"
| "strip_prefix (p # ps) [] = None"
| "strip_prefix (p # ps) (c # cs) = (if p = c then strip_prefix ps cs else None)"

text \<open>\<open>\d{4}-\d{2}-\d{2}\<close> against a whole string.\<close>

definition date_shape :: "string \<Rightarrow> bool" where
  "date_shape s =
     (length s = 10 \<and> list_all is_digit (take 4 s) \<and> s ! 4 = CHR ''-'' \<and>
      list_all is_digit (take 2 (drop 5 s)) \<and> s ! 7 = CHR ''-'' \<and>
      list_all is_digit (drop 8 s))"

text \<open>
  \<open>DUE_DATE_PATTERN = /#due:(\d{4}-\d{2}-\d{2})/\<close>. \<open>match_due_here\<close> is the pattern at the
  start of a string (the captured date and the rest of the string);
  \<open>exec_DUE_DATE_PATTERN\<close> is the leftmost match, as \<open>exec\<close> and \<open>match\<close> find it, giving
  the capture group.
\<close>

definition match_due_here :: "string \<Rightarrow> (string \<times> string) option" where
  "match_due_here s =
     (case strip_prefix ''#due:'' s of
        None \<Rightarrow> None
      | Some r \<Rightarrow> if date_shape (take 10 r) then Some (take 10 r, drop 10 r) else None)"

fun exec_DUE_DATE_PATTERN :: "string \<Rightarrow> string option" where
  "exec_DUE_DATE_PATTERN [] = None"
| "exec_DUE_DATE_PATTERN (c # cs) =
     (case match_due_here (c # cs) of
        Some (d, r) \<Rightarrow> Some d
      | None \<Rightarrow> exec_DUE_DATE_PATTERN cs)"

text \<open>\<open>REPEAT_FREQUENCY_PATTERN = /#repeat:(daily|weekly|monthly)/\<close>, likewise.\<close>

definition match_repeat_here :: "string \<Rightarrow> (frequency \<times> string) option" where
  "match_repeat_here s =
     (case strip_prefix ''#repeat:'' s of
        None \<Rightarrow> None
      | Some r \<Rightarrow>
          (case strip_prefix ''daily'' r of
             Some r' \<Rightarrow> Some (Daily, r')
           | None \<Rightarrow>
               (case strip_prefix ''weekly'' r of
                  Some r' \<Rightarrow> Some (Weekly, r')
                | None \<Rightarrow>
                    (case strip_prefix ''monthly'' r of
                       Some r' \<Rightarrow> Some (Monthly, r')
                     | None \<Rightarrow> None))))"

fun exec_REPEAT_FREQUENCY_PATTERN :: "string \<Rightarrow> frequency option" where
  "exec_REPEAT_FREQUENCY_PATTERN [] = None"
| "exec_REPEAT_FREQUENCY_PATTERN (c # cs) =
     (case match_repeat_here (c # cs) of
        Some (f, r) \<Rightarrow> Some f
      | None \<Rightarrow> exec_REPEAT_FREQUENCY_PATTERN cs)"

text \<open>\<open>H1_HEADER_PATTERN = /^# /\<close> and \<open>H2_HEADER_PATTERN = /^## /\<close>, as \<open>test\<close>.\<close>

definition test_H1_HEADER_PATTERN :: "string \<Rightarrow> bool" where
  "test_H1_HEADER_PATTERN line = (strip_prefix ''# '' line \<noteq> None)"

definition test_H2_HEADER_PATTERN :: "string \<Rightarrow> bool" where
  "test_H2_HEADER_PATTERN line = (strip_prefix ''## '' line \<noteq> None)"

text \<open>
  \<open>TASK_LINE_PATTERN = /^(\s*)- \[(x| )\] (.*)/\<close>: the three capture groups, the second as
  the flag "is \<open>x\<close>". The greedy \<open>\s*\<close> takes all leading white space (the next character
  must be \<open>-\<close>, which is no white space, so nothing is given back), and \<open>.*\<close> runs to the
  first line terminator.
\<close>

definition exec_TASK_LINE_PATTERN :: "string \<Rightarrow> (string \<times> bool \<times> string) option" where
  "exec_TASK_LINE_PATTERN line =
     (case strip_prefix ''- ['' (dropWhile is_space line) of
        None \<Rightarrow> None
      | Some [] \<Rightarrow> None
      | Some (x # r) \<Rightarrow>
          if x = CHR ''x'' \<or> x = CHR '' '' then
            (case strip_prefix ''] '' r of
               None \<Rightarrow> None
             | Some r' \<Rightarrow>
                 Some (takeWhile is_space line, x = CHR ''x'',
                       takeWhile (\<lambda>c. \<not> is_line_terminator c) r'))
          else None)"

definition MAX_DUE_TAG_COUNT :: nat where
  "MAX_DUE_TAG_COUNT = 1"

definition MAX_REPEAT_TAG_COUNT :: nat where
  "MAX_REPEAT_TAG_COUNT = 1"

section \<open>The Markdown core, from the design\<close>

text \<open>
  The parser, the renderer and the recurrence rule live in modules of the application
  (\<open>lib/markdown\<close>, \<open>lib/markdown-renderer\<close> and the task-completion path) whose code is
  not part of the sources at hand. The functions of this section are written from the
  design document, on top of the patterns and limits above.
\<close>

subsection \<open>Tag Extractor\<close>

text \<open>The word of a frequency in a \<open>#repeat\<close> tag, as the pattern spells it.\<close>

fun frequency_word :: "frequency \<Rightarrow> string" where
  "frequency_word Daily = ''daily''"
| "frequency_word Weekly = ''weekly''"
| "frequency_word Monthly = ''monthly''"

datatype validation_error = ValidationError string

datatype tags =
  Tags (tag_text: string) (tag_dueDate: "string option") (tag_repeatFrequency: "frequency option")

text \<open>
  Modelled from the spec: the number of \<open>#due\<close> tags of a line (the Tag Extractor's
  module is missing). A tag is a match of the pattern; matches are counted from left to
  right without overlap, as a global match does.
\<close>

function count_due :: "string \<Rightarrow> nat" where
  "count_due [] = 0"
| "count_due (c # cs) =
     (case match_due_here (c # cs) of
        Some (d, r) \<Rightarrow> Suc (count_due r)
      | None \<Rightarrow> count_due cs)"
  by pat_completeness auto
termination
proof (relation "measure length")
  have sp: "strip_prefix p s = Some r \<Longrightarrow> length s = length p + length r"
    for p s r :: string
    by (induction p s rule: strip_prefix.induct) (auto split: if_splits)
  show "wf (measure (length :: string \<Rightarrow> nat))" by simp
  show "(cs, c # cs) \<in> measure length" for c :: char and cs by simp
  show "(r, c # cs) \<in> measure length"
    if "match_due_here (c # cs) = Some x" and "(d, r) = x" for c cs x d r
  proof -
    from that obtain y where y: "strip_prefix ''#due:'' (c # cs) = Some y" and r: "r = drop 10 y"
      by (auto simp: match_due_here_def split: option.splits if_splits)
    from sp [OF y] r show ?thesis by simp
  qed
qed

text \<open>Modelled from the spec: the number of \<open>#repeat\<close> tags of a line, likewise.\<close>

function count_repeat :: "string \<Rightarrow> nat" where
  "count_repeat [] = 0"
| "count_repeat (c # cs) =
     (case match_repeat_here (c # cs) of
        Some (f, r) \<Rightarrow> Suc (count_repeat r)
      | None \<Rightarrow> count_repeat cs)"
  by pat_completeness auto
termination
proof (relation "measure length")
  have sp: "strip_prefix p s = Some r \<Longrightarrow> length s = length p + length r"
    for p s r :: string
    by (induction p s rule: strip_prefix.induct) (auto split: if_splits)
  show "wf (measure (length :: string \<Rightarrow> nat))" by simp
  show "(cs, c # cs) \<in> measure length" for c :: char and cs by simp
  show "(r, c # cs) \<in> measure length"
    if "match_repeat_here (c # cs) = Some x" and "(f, r) = x" for c cs x f r
  proof -
    from that obtain y z where y: "strip_prefix ''#repeat:'' (c # cs) = Some y"
      and z: "strip_prefix z y = Some r"
      by (auto simp: match_repeat_here_def split: option.splits)
    from sp [OF y] sp [OF z] show ?thesis by simp
  qed
qed

text \<open>
  Modelled from the spec: "the text with recognized inline tags removed" (the Tag
  Extractor's module is missing). One pass from left to right drops every match of either
  pattern and keeps every other character.
\<close>

function strip_tags :: "string \<Rightarrow> string" where
  "strip_tags [] = []"
| "strip_tags (c # cs) =
     (case match_due_here (c # cs) of
        Some (d, r) \<Rightarrow> strip_tags r
      | None \<Rightarrow>
          (case match_repeat_here (c # cs) of
             Some (f, r) \<Rightarrow> strip_tags r
           | None \<Rightarrow> c # strip_tags cs))"
  by pat_completeness auto
termination
proof (relation "measure length")
  have sp: "strip_prefix p s = Some r \<Longrightarrow> length s = length p + length r"
    for p s r :: string
    by (induction p s rule: strip_prefix.induct) (auto split: if_splits)
  show "wf (measure (length :: string \<Rightarrow> nat))" by simp
  show "(cs, c # cs) \<in> measure length"
    if "match_due_here (c # cs) = None" and "match_repeat_here (c # cs) = None"
    for c :: char and cs
    by simp
  show "(r, c # cs) \<in> measure length"
    if "match_due_here (c # cs) = Some x" and "(d, r) = x" for c cs x d r
  proof -
    from that obtain y where y: "strip_prefix ''#due:'' (c # cs) = Some y" and r: "r = drop 10 y"
      by (auto simp: match_due_here_def split: option.splits if_splits)
    from sp [OF y] r show ?thesis by simp
  qed
  show "(r, c # cs) \<in> measure length"
    if "match_due_here (c # cs) = None" and "match_repeat_here (c # cs) = Some x"
      and "(f, r) = x" for c cs x f r
  proof -
    from that obtain y z where y: "strip_prefix ''#repeat:'' (c # cs) = Some y"
      and z: "strip_prefix z y = Some r"
      by (auto simp: match_repeat_here_def split: option.splits)
    from sp [OF y] sp [OF z] show ?thesis by simp
  qed
qed

text \<open>
  Modelled from the spec: the trimming of the Tag Extractor (its module is missing): white
  space removed from both ends, as \<open>trim\<close> does.
\<close>

definition trim :: "string \<Rightarrow> string" where
  "trim s = rev (dropWhile is_space (rev (dropWhile is_space s)))"

text \<open>
  Modelled from the spec: the Tag Extractor (its module is missing). It fails when either
  tag occurs more often than the limit of the constants module allows; otherwise it
  returns the text without the tags, the date of the \<open>#due\<close> tag and the frequency of the
  \<open>#repeat\<close> tag, where there is one. The design does not say what becomes of the white
  space around a removed tag; the text is trimmed, without which no rendered task with a
  tag could be read back. Text after \<open>#due:\<close> that does not match the pattern is no tag and
  stays in the text.
\<close>

definition extract_tags :: "string \<Rightarrow> validation_error + tags" where
  "extract_tags text =
     (if count_due text > MAX_DUE_TAG_COUNT
      then Inl (ValidationError ''Multiple #due tags'')
      else if count_repeat text > MAX_REPEAT_TAG_COUNT
      then Inl (ValidationError ''Multiple #repeat tags'')
      else Inr (Tags (trim (strip_tags text)) (exec_DUE_DATE_PATTERN text)
                  (exec_REPEAT_FREQUENCY_PATTERN text)))"

text \<open>
  The ranges the design states for a due date: month digits \<open>01\<close> to \<open>12\<close>, day digits
  \<open>01\<close> to \<open>31\<close>.
\<close>

definition digit_value :: "char \<Rightarrow> nat" where
  "digit_value c = of_char c - 48"

definition number_of :: "string \<Rightarrow> nat" where
  "number_of s = foldl (\<lambda>n c. 10 * n + digit_value c) 0 s"

definition stated_ranges :: "string \<Rightarrow> bool" where
  "stated_ranges d =
     (1 \<le> number_of (take 2 (drop 5 d)) \<and> number_of (take 2 (drop 5 d)) \<le> 12 \<and>
      1 \<le> number_of (drop 8 d) \<and> number_of (drop 8 d) \<le> 31)"

subsection \<open>Line Classifier\<close>

datatype line_class = Title string | Section string | TaskLine string bool string | Other

text \<open>
  Modelled from the spec: the Line Classifier (its module is missing), with the header and
  task-line patterns of the constants module. A title or section carries the text after
  the marker.
\<close>

definition classify_line :: "string \<Rightarrow> line_class" where
  "classify_line line =
     (if test_H1_HEADER_PATTERN line then Title (drop 2 line)
      else if test_H2_HEADER_PATTERN line then Section (drop 3 line)
      else (case exec_TASK_LINE_PATTERN line of
              Some (indent, checked, text) \<Rightarrow> TaskLine indent checked text
            | None \<Rightarrow> Other))"

text \<open>
  Modelled from the spec: the status of a section (recognized names \<open>Todo\<close>, \<open>Doing\<close>,
  \<open>Done\<close>; any other name maps to todo).
\<close>

definition section_status :: "string \<Rightarrow> task_status" where
  "section_status name =
     (if name = ''Todo'' then Todo
      else if name = ''Doing'' then Doing
      else if name = ''Done'' then Done
      else Todo)"

subsection \<open>Recurrence Engine\<close>

text \<open>
  Calendar dates of the proleptic Gregorian calendar, with the lengths of the months.
\<close>

datatype date = Date (year: nat) (month: nat) (day: nat)

definition leap_year :: "nat \<Rightarrow> bool" where
  "leap_year y = (y mod 4 = 0 \<and> (y mod 100 \<noteq> 0 \<or> y mod 400 = 0))"

definition days_in_month :: "nat \<Rightarrow> nat \<Rightarrow> nat" where
  "days_in_month y m =
     (if m = 2 then (if leap_year y then 29 else 28)
      else if m = 4 \<or> m = 6 \<or> m = 9 \<or> m = 11 then 30
      else 31)"

definition valid_date :: "date \<Rightarrow> bool" where
  "valid_date d =
     (1 \<le> month d \<and> month d \<le> 12 \<and> 1 \<le> day d \<and>
      day d \<le> days_in_month (year d) (month d))"

text \<open>
  The number of a day, counted from the last day before year 0: the days of the years
  before, the days of the months before, and the day of the month. It is the yardstick for
  "plus n calendar days", and plays no part in the computation of a next date.
\<close>

definition days_before_year :: "nat \<Rightarrow> nat" where
  "days_before_year y = (\<Sum>k < y. if leap_year k then 366 else 365)"

definition days_before_month :: "nat \<Rightarrow> nat \<Rightarrow> nat" where
  "days_before_month y m = (\<Sum>k = 1..<m. days_in_month y k)"

definition day_number :: "date \<Rightarrow> nat" where
  "day_number d = days_before_year (year d) + days_before_month (year d) (month d) + day d"

text \<open>
  Modelled from the spec: the date arithmetic of the Recurrence Engine (its module is
  missing): the next calendar day, n calendar days later, and one calendar month later
  with the day of the month clamped to the length of the target month.
\<close>

fun next_day :: "date \<Rightarrow> date" where
  "next_day (Date y m d) =
     (if d < days_in_month y m then Date y m (d + 1)
      else if m < 12 then Date y (m + 1) 1
      else Date (y + 1) 1 1)"

definition add_days :: "nat \<Rightarrow> date \<Rightarrow> date" where
  "add_days n d = (next_day ^^ n) d"

fun next_month :: "nat \<times> nat \<Rightarrow> nat \<times> nat" where
  "next_month (y, m) = (if m < 12 then (y, m + 1) else (y + 1, 1))"

fun add_month :: "date \<Rightarrow> date" where
  "add_month (Date y m d) =
     (case next_month (y, m) of (y', m') \<Rightarrow> Date y' m' (min d (days_in_month y' m')))"

fun next_due :: "frequency \<Rightarrow> date \<Rightarrow> date" where
  "next_due Daily d = add_days 1 d"
| "next_due Weekly d = add_days 7 d"
| "next_due Monthly d = add_month d"

text \<open>
  Modelled from the spec: reading and writing a due date (the Recurrence Engine's module
  is missing); a due date is stored as the text \<open>YYYY-MM-DD\<close>.
\<close>

definition parse_date :: "string \<Rightarrow> date option" where
  "parse_date s =
     (if date_shape s
      then Some (Date (number_of (take 4 s)) (number_of (take 2 (drop 5 s)))
                  (number_of (drop 8 s)))
      else None)"

definition digit_char :: "nat \<Rightarrow> char" where
  "digit_char n = ''0123456789'' ! (n mod 10)"

definition format_date :: "date \<Rightarrow> string" where
  "format_date d =
     [digit_char (year d div 1000), digit_char (year d div 100), digit_char (year d div 10),
      digit_char (year d), CHR ''-'', digit_char (month d div 10), digit_char (month d),
      CHR ''-'', digit_char (day d div 10), digit_char (day d)]"

datatype task_skeleton =
  TaskSkeleton (sk_content: string) (sk_status: task_status) (sk_dueDate: "string option")
    (sk_repeatFrequency: "frequency option") (sk_parentId: "string option")

text \<open>
  Modelled from the spec: \<open>nextOccurrence\<close> of the Recurrence Engine (its module is
  missing). A task without a repeat frequency has no next occurrence. Otherwise the
  skeleton has the content, the frequency and the parent of the task, the status todo,
  and the next due date; no date when the task has none (or has a text that is no date).
\<close>

definition nextOccurrence :: "task \<Rightarrow> task_skeleton option" where
  "nextOccurrence t =
     (case repeatFrequency t of
        None \<Rightarrow> None
      | Some f \<Rightarrow>
          Some (TaskSkeleton (content t) Todo
                  (case dueDate t of
                     None \<Rightarrow> None
                   | Some s \<Rightarrow> map_option (\<lambda>d. format_date (next_due f d)) (parse_date s))
                  (Some f) (parentId t)))"

text \<open>Completed tasks of the README's kind: daily, monthly, and one without a due date.\<close>

definition example_daily :: task where
  "example_daily =
     Task ''t1'' ''Take vitamins'' Done (Some ''2025-11-23'') (Some Daily)
       ''- [x] Take vitamins #due:2025-11-23 #repeat:daily'' 4 None []"

definition example_monthly :: "string \<Rightarrow> task" where
  "example_monthly due =
     Task ''t2'' ''Pay rent'' Done (Some due) (Some Monthly) '''' 7 (Some ''t0'') []"

definition example_undated :: task where
  "example_undated =
     Task ''t3'' ''Water plants'' Done None (Some Weekly) ''- [x] Water plants #repeat:weekly''
       9 None []"

subsection \<open>Tree Builder and document parser\<close>

text \<open>
  Modelled from the spec: the indentation rule of the Line Classifier (its module is
  missing): four literal spaces of the indent per level, rounded down.
\<close>

definition indent_level :: "string \<Rightarrow> nat" where
  "indent_level indent = length (filter (\<lambda>c. c = CHR '' '') indent) div 4"

text \<open>
  Modelled from the spec: the lines of a document (the parser's module is missing), split
  at line feeds.
\<close>

fun split_lines :: "string \<Rightarrow> string list" where
  "split_lines [] = [[]]"
| "split_lines (c # cs) =
     (if c = CHR 0x0A then [] # split_lines cs
      else (case split_lines cs of
              [] \<Rightarrow> [[c]]
            | l # ls \<Rightarrow> (c # l) # ls))"

text \<open>
  Modelled from the spec: the serial number of an id (the parser's module is missing), in
  decimal digits.
\<close>

fun decimal :: "nat \<Rightarrow> string" where
  "decimal n = (if n < 10 then [digit_char n] else decimal (n div 10) @ [digit_char n])"

text \<open>
  Modelled from the spec: the state of the Tree Builder (its module is missing) while it
  scans a document: the title, the forest built so
  far, the stack of open tasks (the level of each, the top first), the status of the most
  recent section, and the serial counter for ids. The open tasks are the last task of the
  forest, its last subtask, and so on: a task is attached below the open task it follows.
\<close>

record builder =
  b_title :: string
  b_forest :: "task list"
  b_stack :: "nat list"
  b_section :: "task_status option"
  b_counter :: nat

text \<open>
  Modelled from the spec: attaching a task to its parent's subtasks (the Tree Builder's
  module is missing). The new task goes below the open task at a depth of the stack (depth 0 is the top
  level); the new task is given the id of its parent.
\<close>

fun set_subtasks :: "task \<Rightarrow> task list \<Rightarrow> task" where
  "set_subtasks (Task i c s d r rl ln p subs) subs' = Task i c s d r rl ln p subs'"

fun attach :: "nat \<Rightarrow> (string option \<Rightarrow> task) \<Rightarrow> string option \<Rightarrow> task list \<Rightarrow> task list" where
  "attach 0 mk p ts = ts @ [mk p]"
| "attach (Suc k) mk p [] = [mk p]"
| "attach (Suc k) mk p (t # ts) =
     (if ts = []
      then [set_subtasks t (attach k mk (Some (task_id t)) (subtasks t))]
      else t # attach (Suc k) mk p ts)"

text \<open>
  Modelled from the spec: one step of the Tree Builder (its module is missing), for a
  classified line with its line number. A title line sets the title and a section line
  the current status. A task line: the level from the indent; the stack is popped until
  its top has a smaller level, and the new top is the parent; the Tag Extractor runs on
  the text, and its error is raised with the line number; the status is done when the box
  is checked and otherwise that of the current section (todo before any section); the id
  is made of the project id and the serial counter; the task is attached and pushed with
  its level (level 0 when it has no parent).
\<close>

definition builder_step ::
  "string \<Rightarrow> builder \<Rightarrow> nat \<times> string \<Rightarrow> error + builder" where
  "builder_step projectId b numbered =
     (case numbered of (lineNo, line) \<Rightarrow>
        (case classify_line line of
           Title text \<Rightarrow> Inr (b\<lparr>b_title := text\<rparr>)
         | Section name \<Rightarrow> Inr (b\<lparr>b_section := Some (section_status name)\<rparr>)
         | Other \<Rightarrow> Inr b
         | TaskLine indent checked text \<Rightarrow>
             (let level = indent_level indent;
                  stack = dropWhile (\<lambda>l. level \<le> l) (b_stack b)
              in case extract_tags text of
                   Inl (ValidationError msg) \<Rightarrow> Inl (ParseValidationError lineNo msg)
                 | Inr tags \<Rightarrow>
                     (let st = (if checked then Done
                                else (case b_section b of None \<Rightarrow> Todo | Some s \<Rightarrow> s));
                          new = (\<lambda>parent.
                                   Task (projectId @ ''-'' @ decimal (b_counter b))
                                     (tag_text tags) st (tag_dueDate tags)
                                     (tag_repeatFrequency tags) line lineNo parent [])
                      in Inr (b\<lparr>b_forest := attach (length stack) new None (b_forest b),
                                b_stack := (if stack = [] then 0 else level) # stack,
                                b_counter := Suc (b_counter b)\<rparr>)))))"

text \<open>
  Modelled from the spec: the Tree Builder over the lines of a document (its module is
  missing), numbered from the given line number; the first error ends the run.
\<close>

fun builder_run :: "string \<Rightarrow> builder \<Rightarrow> nat \<Rightarrow> string list \<Rightarrow> error + builder" where
  "builder_run projectId b n [] = Inr b"
| "builder_run projectId b n (l # ls) =
     (case builder_step projectId b (n, l) of
        Inl e \<Rightarrow> Inl e
      | Inr b' \<Rightarrow> builder_run projectId b' (Suc n) ls)"

text \<open>
  Modelled from the spec: the identity recovery of the update path (the parser's module
  is missing): a task takes the id of the task at the same
  position of the previous forest, where there is one, and its subtasks take its id as
  their parent id.
\<close>

fun carry_task :: "task option \<Rightarrow> string option \<Rightarrow> task \<Rightarrow> task"
  and carry_ids :: "task list \<Rightarrow> string option \<Rightarrow> task list \<Rightarrow> task list" where
  "carry_task e p (Task i c s d r rl ln q subs) =
     Task (case e of None \<Rightarrow> i | Some e' \<Rightarrow> task_id e') c s d r rl ln p
       (carry_ids (case e of None \<Rightarrow> [] | Some e' \<Rightarrow> subtasks e')
          (Some (case e of None \<Rightarrow> i | Some e' \<Rightarrow> task_id e')) subs)"
| "carry_ids es p [] = []"
| "carry_ids es p (t # ts) =
     carry_task (case es of [] \<Rightarrow> None | e # es' \<Rightarrow> Some e) p t # carry_ids (tl es) p ts"

text \<open>
  Modelled from the spec: \<open>parseDocument\<close> (the parser's module is missing), with the
  project id that the ids are derived from. The title is the one given unless the document
  has a title line; lines are numbered from 1; the first validation error aborts the
  parse.
\<close>

definition parseDocument ::
  "string \<Rightarrow> string \<Rightarrow> string \<Rightarrow> task list option \<Rightarrow> error + string \<times> task list" where
  "parseDocument projectId title' body existing =
     (case builder_run projectId
             \<lparr>b_title = title', b_forest = [], b_stack = [], b_section = None, b_counter = 1\<rparr>
             1 (split_lines body) of
           Inl e \<Rightarrow> Inl e
         | Inr b \<Rightarrow>
             Inr (b_title b,
                  (case existing of
                     None \<Rightarrow> b_forest b
                   | Some previous \<Rightarrow> carry_ids previous None (b_forest b))))"

subsection \<open>Renderer\<close>

text \<open>
  Modelled from the spec: the Renderer (its module is missing). One title line; one
  section per status that has top-level tasks, in the order Todo, Doing, Done; each task
  as a checkbox line, checked iff done, indented four spaces per depth, with its tags
  after the content; the subtasks right after their parent, whatever their status. Every
  line ends with a line feed.
\<close>

definition task_text :: "task \<Rightarrow> string" where
  "task_text t =
     content t
     @ (case dueDate t of None \<Rightarrow> [] | Some d \<Rightarrow> '' #due:'' @ d)
     @ (case repeatFrequency t of None \<Rightarrow> [] | Some f \<Rightarrow> '' #repeat:'' @ frequency_word f)"

definition task_line :: "nat \<Rightarrow> task \<Rightarrow> string" where
  "task_line depth t =
     replicate (4 * depth) CHR '' '' @ ''- ['' @ (if status t = Done then ''x'' else '' '')
     @ ''] '' @ task_text t"

fun render_task :: "nat \<Rightarrow> task \<Rightarrow> string list"
  and render_forest :: "nat \<Rightarrow> task list \<Rightarrow> string list" where
  "render_task depth (Task i c s d r rl ln p subs) =
     task_line depth (Task i c s d r rl ln p subs) # render_forest (Suc depth) subs"
| "render_forest depth [] = []"
| "render_forest depth (t # ts) = render_task depth t @ render_forest depth ts"

definition render_section :: "string \<Rightarrow> task_status \<Rightarrow> task list \<Rightarrow> string list" where
  "render_section name s ts =
     (let bucket = filter (\<lambda>t. status t = s) ts
      in if bucket = [] then [] else (''## '' @ name) # render_forest 0 bucket)"

definition render_lines :: "string \<Rightarrow> task list \<Rightarrow> string list" where
  "render_lines title' ts =
     (''# '' @ title') # render_section ''Todo'' Todo ts @ render_section ''Doing'' Doing ts
     @ render_section ''Done'' Done ts"

definition renderDocument :: "string \<Rightarrow> task list \<Rightarrow> string" where
  "renderDocument title' ts = concat (map (\<lambda>l. l @ [CHR 0x0A]) (render_lines title' ts))"

subsection \<open>Vocabulary for the round-trip law\<close>

text \<open>
  What the round-trip law compares: content, status, dueDate, repeatFrequency and
  hierarchy; and the same with the ids and parent ids.
\<close>

datatype node = Node string task_status "string option" "frequency option" "node list"

fun erase :: "task \<Rightarrow> node" and erase_all :: "task list \<Rightarrow> node list" where
  "erase (Task i c s d r rl ln p subs) = Node c s d r (erase_all subs)"
| "erase_all [] = []"
| "erase_all (t # ts) = erase t # erase_all ts"

datatype id_node =
  IdNode string "string option" string task_status "string option" "frequency option"
    "id_node list"

fun with_ids :: "task \<Rightarrow> id_node" and with_ids_all :: "task list \<Rightarrow> id_node list" where
  "with_ids (Task i c s d r rl ln p subs) = IdNode i p c s d r (with_ids_all subs)"
| "with_ids_all [] = []"
| "with_ids_all (t # ts) = with_ids t # with_ids_all ts"

text \<open>The invariant of the data model: the parent id of a subtask is the id of its owner.\<close>

fun well_parented :: "string option \<Rightarrow> task \<Rightarrow> bool"
  and well_parented_all :: "string option \<Rightarrow> task list \<Rightarrow> bool" where
  "well_parented q (Task i c s d r rl ln p subs) = (p = q \<and> well_parented_all (Some i) subs)"
| "well_parented_all q [] = True"
| "well_parented_all q (t # ts) = (well_parented q t \<and> well_parented_all q ts)"

text \<open>
  The forests that the canonical document can express. The top-level tasks stand in the
  order of the sections. Below a top-level task, a task is done or has the status of the
  section. The content of a task is plain text (on one line, without a tag and without
  white space at either end), and a due date has the shape of a date.
\<close>

definition grouped :: "task list \<Rightarrow> bool" where
  "grouped ts =
     (ts = filter (\<lambda>t. status t = Todo) ts @ filter (\<lambda>t. status t = Doing) ts
           @ filter (\<lambda>t. status t = Done) ts)"

fun settled :: "task_status \<Rightarrow> task \<Rightarrow> bool"
  and settled_all :: "task_status \<Rightarrow> task list \<Rightarrow> bool" where
  "settled s (Task i c st d r rl ln p subs) = ((st = Done \<or> st = s) \<and> settled_all s subs)"
| "settled_all s [] = True"
| "settled_all s (t # ts) = (settled s t \<and> settled_all s ts)"

definition trimmed :: "string \<Rightarrow> bool" where
  "trimmed c = (c = [] \<or> (\<not> is_space (hd c) \<and> \<not> is_space (last c)))"

definition plain_text :: "string \<Rightarrow> bool" where
  "plain_text c =
     (exec_DUE_DATE_PATTERN c = None \<and> exec_REPEAT_FREQUENCY_PATTERN c = None \<and> trimmed c \<and>
      list_all (\<lambda>ch. \<not> is_line_terminator ch) c)"

fun printable :: "task \<Rightarrow> bool" and printable_all :: "task list \<Rightarrow> bool" where
  "printable (Task i c s d r rl ln p subs) =
     (plain_text c \<and> (case d of None \<Rightarrow> True | Some x \<Rightarrow> date_shape x) \<and> printable_all subs)"
| "printable_all [] = True"
| "printable_all (t # ts) = (printable t \<and> printable_all ts)"

definition canonical :: "task list \<Rightarrow> bool" where
  "canonical ts =
     (grouped ts \<and> list_all (\<lambda>t. settled (status t) t) ts \<and> printable_all ts)"

text \<open>
  Grafting new nodes below the last node at a depth of a forest (depth 0 is the top
  level), and the number of nodes on the path from the last top-level node down its last
  subtasks.
\<close>

fun graft :: "nat \<Rightarrow> node list \<Rightarrow> node list \<Rightarrow> node list" where
  "graft 0 new ns = ns @ new"
| "graft (Suc k) new [] = new"
| "graft (Suc k) new (Node c s d r subs # ns) =
     (if ns = [] then [Node c s d r (graft k new subs)]
      else Node c s d r subs # graft (Suc k) new ns)"

fun last_depth :: "node list \<Rightarrow> nat" where
  "last_depth [] = 0"
| "last_depth (Node c s d r subs # ns) = (if ns = [] then Suc (last_depth subs) else last_depth ns)"

text \<open>
  The invariant of the builder's stack on the documents of the Renderer: the open tasks
  are those on the path from the last top-level task down its last subtasks, with the
  levels 0, 1, 2 and so on. \<open>builds\<close> says that the builder, run over some lines,
  returns, keeps the title and the section, keeps the invariant, and has grafted the given
  nodes at the given depth.
\<close>

definition stack_ok :: "builder \<Rightarrow> bool" where
  "stack_ok b = (b_stack b = rev [0..<last_depth (erase_all (b_forest b))])"

definition builds :: "string \<Rightarrow> builder \<Rightarrow> nat \<Rightarrow> string list \<Rightarrow> nat \<Rightarrow> node list \<Rightarrow> bool" where
  "builds pid b n ls k ns =
     (\<exists>b'. builder_run pid b n ls = Inr b' \<and> b_title b' = b_title b \<and>
        b_section b' = b_section b \<and>
        erase_all (b_forest b') = graft k ns (erase_all (b_forest b)) \<and>
        stack_ok b' \<and> k \<le> last_depth (erase_all (b_forest b')))"

text \<open>
  Example documents and forests: the forest of the design's end-to-end scenario (with a
  repeat tag added); a document whose Doing section comes first, and its forest; a
  document with a checked parent and an unchecked subtask in the Todo section, and its
  forest.
\<close>

definition example_forest :: "task list" where
  "example_forest =
     [Task ''p-1'' ''Buy milk'' Todo (Some ''2025-11-23'') None
        ''- [ ] Buy milk #due:2025-11-23'' 3 None
        [Task ''p-2'' ''Pick brand'' Todo None None ''    - [ ] Pick brand'' 4 (Some ''p-1'') []],
      Task ''p-3'' ''Setup'' Done None (Some Weekly) ''- [x] Setup #repeat:weekly'' 6 None []]"

definition example_sections_swapped :: string where
  "example_sections_swapped =
     ''## Doing'' @ [CHR 0x0A] @ ''- [ ] A'' @ [CHR 0x0A] @ ''## Todo'' @ [CHR 0x0A]
     @ ''- [ ] B'' @ [CHR 0x0A]"

definition example_swapped_forest :: "task list" where
  "example_swapped_forest =
     [Task ''p-1'' ''A'' Doing None None ''- [ ] A'' 2 None [],
      Task ''p-2'' ''B'' Todo None None ''- [ ] B'' 4 None []]"

definition example_checked_parent :: string where
  "example_checked_parent =
     ''## Todo'' @ [CHR 0x0A] @ ''- [x] P'' @ [CHR 0x0A] @ ''    - [ ] C'' @ [CHR 0x0A]"

definition example_checked_forest :: "task list" where
  "example_checked_forest =
     [Task ''p-1'' ''P'' Done None None ''- [x] P'' 2 None
        [Task ''p-2'' ''C'' Todo None None ''    - [ ] C'' 3 (Some ''p-1'') []]]"


subsection \<open>The route on the parser of the design\<close>

text \<open>
  Modelled from the spec: the parser as the route calls it (its module is missing), that
  is, \<open>parseDocument\<close> without a previous forest, and the project made of its result. The
  third argument, empty in the route's call, is taken for the project's path; a document
  without a title line has the empty title.
\<close>

definition parseMarkdown' :: "string \<Rightarrow> string \<Rightarrow> string \<Rightarrow> error + project" where
  "parseMarkdown' projectId content' filePath =
     (case parseDocument projectId '''' content' None of
        Inl ex \<Rightarrow> Inl ex
      | Inr (t, forest) \<Rightarrow>
          Inr \<lparr>project_id = projectId, title = t, path = filePath, tasks = forest\<rparr>)"




section \<open>Properties of the route\<close>

subsection \<open>The maps and the loops\<close>

lemma mapTask_mapTasks_fold:
  "mapTask t m = fold (\<lambda>t m. map_set m (task_id t) t) (flatten_task t) m"
  "mapTasks ts m = fold (\<lambda>t m. map_set m (task_id t) t) (flatten ts) m"
  by (induction t m and ts m rule: mapTask_mapTasks.induct) (simp_all add: Let_def)

lemma map_fst_map_set:
  "map fst (map_set m k v) = (if k \<in> fst ` set m then map fst m else map fst m @ [k])"
  by (induction m) (force simp: image_iff)+

lemma keys_map_set: "fst ` set (map_set m k v) = insert k (fst ` set m)"
  using arg_cong [OF map_fst_map_set [of m k v], of set] by (auto split: if_splits)

lemma distinct_map_set: "distinct (map fst m) \<Longrightarrow> distinct (map fst (map_set m k v))"
  by (simp add: map_fst_map_set)

lemma keys_fold_set:
  "fst ` set (fold (\<lambda>t m. map_set m (f t) t) xs m) = fst ` set m \<union> f ` set xs"
  by (induction xs arbitrary: m) (simp_all add: keys_map_set)

lemma distinct_fold_set:
  "distinct (map fst m) \<Longrightarrow> distinct (map fst (fold (\<lambda>t m. map_set m (f t) t) xs m))"
  by (induction xs arbitrary: m) (simp_all add: distinct_map_set)

lemma delete_loop_take:
  "\<exists>n. fst (delete_loop thr new ex tr) = tr @ take n (planned_deletes new ex)"
proof (induction ex arbitrary: tr)
  case Nil
  then show ?case by (simp add: planned_deletes_def)
next
  case (Cons a ex)
  obtain k t where a: "a = (k, t)" by (cases a)
  show ?case
  proof (cases "map_has new k")
    case True
    then show ?thesis using Cons [of tr] by (simp add: a planned_deletes_def)
  next
    case False
    show ?thesis
    proof (cases "thr (tr @ [DeleteTask k])")
      case True
      have "fst (delete_loop thr new (a # ex) tr) = tr @ take 1 (planned_deletes new (a # ex))"
        using True False by (simp add: a planned_deletes_def)
      then show ?thesis by blast
    next
      case nt: False
      from Cons [of "tr @ [DeleteTask k]"] obtain n where
        "fst (delete_loop thr new ex (tr @ [DeleteTask k])) = (tr @ [DeleteTask k]) @ take n (planned_deletes new ex)"
        by blast
      then have "fst (delete_loop thr new (a # ex) tr) = tr @ take (Suc n) (planned_deletes new (a # ex))"
        using nt False by (simp add: a planned_deletes_def)
      then show ?thesis by blast
    qed
  qed
qed

lemma delete_loop_done:
  "snd (delete_loop thr new ex tr) \<Longrightarrow> fst (delete_loop thr new ex tr) = tr @ planned_deletes new ex"
  by (induction ex arbitrary: tr) (auto simp: planned_deletes_def Let_def split: if_splits)

lemma delete_loop_no_throw:
  "\<forall>t. \<not> thr t \<Longrightarrow> snd (delete_loop thr new ex tr)"
  by (induction ex arbitrary: tr) (auto simp: Let_def)

lemma upsert_loop_take:
  "\<exists>n. fst (upsert_loop thr pid ex new tr) = tr @ take n (planned_upserts pid ex new)"
proof (induction new arbitrary: tr)
  case Nil
  then show ?case by (simp add: planned_upserts_def)
next
  case (Cons a new)
  obtain k t where a: "a = (k, t)" by (cases a)
  let ?c = "upsert_call pid ex k t"
  show ?case
  proof (cases "thr (tr @ [?c])")
    case True
    have "fst (upsert_loop thr pid ex (a # new) tr) = tr @ take 1 (planned_upserts pid ex (a # new))"
      using True by (simp add: a planned_upserts_def Let_def)
    then show ?thesis by blast
  next
    case nt: False
    from Cons [of "tr @ [?c]"] obtain n where
      "fst (upsert_loop thr pid ex new (tr @ [?c])) = (tr @ [?c]) @ take n (planned_upserts pid ex new)"
      by blast
    then have "fst (upsert_loop thr pid ex (a # new) tr) = tr @ take (Suc n) (planned_upserts pid ex (a # new))"
      using nt by (simp add: a planned_upserts_def Let_def)
    then show ?thesis by blast
  qed
qed

lemma upsert_loop_done:
  "snd (upsert_loop thr pid ex new tr) \<Longrightarrow> fst (upsert_loop thr pid ex new tr) = tr @ planned_upserts pid ex new"
  by (induction new arbitrary: tr) (auto simp: planned_upserts_def Let_def split: if_splits)

lemma upsert_loop_no_throw:
  "\<forall>t. \<not> thr t \<Longrightarrow> snd (upsert_loop thr pid ex new tr)"
  by (induction new arbitrary: tr) (auto simp: Let_def)

lemma keys_mapTasks: "fst ` set (mapTasks ts []) = ids ts"
  by (simp add: mapTask_mapTasks_fold keys_fold_set ids_def)

lemma map_has_mapTasks: "map_has (mapTasks ts []) k \<longleftrightarrow> k \<in> ids ts"
  by (simp add: map_has_def keys_mapTasks)

lemma distinct_mapTasks: "distinct (map fst (mapTasks ts []))"
  by (simp add: mapTask_mapTasks_fold distinct_fold_set)

lemma set_map_set: "set (map_set m k v) \<subseteq> insert (k, v) (set m)"
  by (induction m) (auto split: if_splits)

lemma entries_fold_set:
  "(k, t) \<in> set (fold (\<lambda>t m. map_set m (f t) t) xs m) \<Longrightarrow> (k, t) \<in> set m \<or> (t \<in> set xs \<and> f t = k)"
proof (induction xs arbitrary: m)
  case Nil
  then show ?case by simp
next
  case (Cons x xs)
  from Cons.IH [of "map_set m (f x) x"] Cons.prems
  have "(k, t) \<in> set (map_set m (f x) x) \<or> (t \<in> set xs \<and> f t = k)" by simp
  then show ?case using set_map_set [of m "f x" x] by auto
qed

lemma entries_mapTasks:
  "(k, t) \<in> set (mapTasks ts []) \<Longrightarrow> t \<in> set (flatten ts) \<and> task_id t = k"
  using entries_fold_set [of k t task_id "flatten ts" "[]"] by (simp add: mapTask_mapTasks_fold)

lemma sync_tasks_success:
  assumes "fst (sync_tasks thr pid existing parsed tr) = json_success"
  shows "snd (sync_tasks thr pid existing parsed tr) =
           tr @ planned_deletes (mapNewTasks parsed) (mapExistingTasks existing)
              @ planned_upserts pid (mapExistingTasks existing) (mapNewTasks parsed)"
proof -
  let ?ex = "mapExistingTasks existing" and ?new = "mapNewTasks parsed"
  obtain tr1 ok1 where d: "delete_loop thr ?new ?ex tr = (tr1, ok1)" by (cases "delete_loop thr ?new ?ex tr")
  obtain tr2 ok2 where u: "upsert_loop thr pid ?ex ?new tr1 = (tr2, ok2)" by (cases "upsert_loop thr pid ?ex ?new tr1")
  have ne: "fst (caught t) \<noteq> json_success" for t by (simp add: caught_def json_success_def)
  from assms d u have ok: "ok1" "ok2"
    using ne by (auto simp: sync_tasks_def Let_def split: if_splits bool.splits)
  from delete_loop_done [of thr ?new ?ex tr] d ok have t1: "tr1 = tr @ planned_deletes ?new ?ex" by simp
  from upsert_loop_done [of thr pid ?ex ?new tr1] u ok have t2: "tr2 = tr1 @ planned_upserts pid ?ex ?new" by simp
  show ?thesis using d u ok t1 t2 by (simp add: sync_tasks_def Let_def)
qed

lemma sync_tasks_take:
  "\<exists>n. snd (sync_tasks thr pid existing parsed tr) =
           tr @ take n (planned_deletes (mapNewTasks parsed) (mapExistingTasks existing)
              @ planned_upserts pid (mapExistingTasks existing) (mapNewTasks parsed))"
proof -
  let ?ex = "mapExistingTasks existing" and ?new = "mapNewTasks parsed"
  let ?D = "planned_deletes ?new ?ex" and ?U = "planned_upserts pid ?ex ?new"
  obtain tr1 ok1 where d: "delete_loop thr ?new ?ex tr = (tr1, ok1)" by (cases "delete_loop thr ?new ?ex tr")
  obtain tr2 ok2 where u: "upsert_loop thr pid ?ex ?new tr1 = (tr2, ok2)" by (cases "upsert_loop thr pid ?ex ?new tr1")
  show ?thesis
  proof (cases ok1)
    case False
    from delete_loop_take [of thr ?new ?ex tr] d obtain n where "tr1 = tr @ take n ?D" by auto
    then have "snd (sync_tasks thr pid existing parsed tr) = tr @ take (min n (length ?D)) (?D @ ?U)"
      using d False by (simp add: sync_tasks_def Let_def caught_def min_def)
    then show ?thesis by blast
  next
    case True
    from delete_loop_done [of thr ?new ?ex tr] d True have t1: "tr1 = tr @ ?D" by simp
    from upsert_loop_take [of thr pid ?ex ?new tr1] u obtain n where t2: "tr2 = tr1 @ take n ?U" by auto
    have "snd (sync_tasks thr pid existing parsed tr) = tr2"
      using d u True by (cases ok2) (simp_all add: sync_tasks_def Let_def caught_def)
    then have "snd (sync_tasks thr pid existing parsed tr) = tr @ take (length ?D + n) (?D @ ?U)"
      using t1 t2 by simp
    then show ?thesis by blast
  qed
qed

lemma sync_tasks_no_throw:
  assumes "\<forall>t. \<not> thr t"
  shows "fst (sync_tasks thr pid existing parsed tr) = json_success"
proof -
  let ?ex = "mapExistingTasks existing" and ?new = "mapNewTasks parsed"
  obtain tr1 where d: "delete_loop thr ?new ?ex tr = (tr1, True)"
    using delete_loop_no_throw [OF assms, of ?new ?ex tr] by (cases "delete_loop thr ?new ?ex tr") simp
  obtain tr2 where u: "upsert_loop thr pid ?ex ?new tr1 = (tr2, True)"
    using upsert_loop_no_throw [OF assms, of pid ?ex ?new tr1]
    by (cases "upsert_loop thr pid ?ex ?new tr1") simp
  show ?thesis using d u by (simp add: sync_tasks_def Let_def)
qed

lemma planned_deletes_ids:
  "planned_deletes (mapNewTasks parsed) (mapExistingTasks existing) =
     map DeleteTask (filter (\<lambda>k. k \<notin> ids parsed) (map fst (mapExistingTasks existing)))"
  by (simp add: planned_deletes_def mapNewTasks_def map_has_mapTasks)





lemma filter_update_deletes: "filter is_update (planned_deletes new ex) = []"
  by (simp add: planned_deletes_def filter_empty_conv)

lemma filter_add_deletes: "filter is_add (planned_deletes new ex) = []"
  by (simp add: planned_deletes_def filter_empty_conv)

lemma delete_in_upserts: "DeleteTask k \<notin> set (planned_upserts pid ex new)"
  by (auto simp: planned_upserts_def upsert_call_def split: if_splits)

lemma upsert_call_is_update:
  "upsert_call pid ex k' t = UpdateTask k c s d r \<longleftrightarrow>
     (map_has ex k' \<and> k = k' \<and> c = content t \<and> s = status t \<and> d = dueDate t \<and>
      r = repeatFrequency t)"
  by (auto simp: upsert_call_def)

lemma upsert_call_is_update':
  "UpdateTask k c s d r = upsert_call pid ex k' t \<longleftrightarrow>
     (map_has ex k' \<and> k = k' \<and> c = content t \<and> s = status t \<and> d = dueDate t \<and>
      r = repeatFrequency t)"
  by (auto simp: upsert_call_def)

lemma update_in_deletes: "UpdateTask k c s d r \<notin> set (planned_deletes new ex)"
  by (auto simp: planned_deletes_def)

lemma update_in_upserts:
  "UpdateTask k c s d r \<in> set (planned_upserts pid ex new) \<longleftrightarrow>
     (map_has ex k \<and> (\<exists>t. (k, t) \<in> set new \<and> c = content t \<and> s = status t \<and>
        d = dueDate t \<and> r = repeatFrequency t))"
  by (force simp: planned_upserts_def image_iff upsert_call_is_update')

lemma filter_add_upserts:
  "filter is_add (planned_upserts pid ex new) =
     map (\<lambda>(k, t). AddTask pid (content t) (status t) (dueDate t) (parentId t) (repeatFrequency t))
       (filter (\<lambda>(k, t). \<not> map_has ex k) new)"
  by (induction new) (auto simp: planned_upserts_def upsert_call_def)

text \<open>
  C1, as the code has it. The synchronisation matches by id, not by position: on a
  successful run, \<open>updateTask\<close> is called for an id exactly when the id occurs in both
  forests (the call carries that id), \<open>deleteTask\<close> exactly for the ids that occur in the
  existing forest only, and \<open>addTask\<close> once per entry of the new map whose id does not
  occur in the existing forest; the new map has one entry per id of the parsed forest.
\<close>

theorem sync_matches_by_id:
  assumes "fst (sync_tasks thr pid existing parsed tr) = json_success"
  shows "take (length tr) (snd (sync_tasks thr pid existing parsed tr)) = tr \<and>
      (\<forall>k. (\<exists>c s d r. UpdateTask k c s d r \<in>
              set (drop (length tr) (snd (sync_tasks thr pid existing parsed tr)))) \<longleftrightarrow>
           (k \<in> ids existing \<and> k \<in> ids parsed)) \<and>
      (\<forall>k. DeleteTask k \<in> set (drop (length tr) (snd (sync_tasks thr pid existing parsed tr))) \<longleftrightarrow>
           (k \<in> ids existing \<and> k \<notin> ids parsed)) \<and>
      filter is_add (drop (length tr) (snd (sync_tasks thr pid existing parsed tr))) =
        map (\<lambda>(k, t). AddTask pid (content t) (status t) (dueDate t) (parentId t) (repeatFrequency t))
          (filter (\<lambda>(k, t). k \<notin> ids existing) (mapNewTasks parsed)) \<and>
      distinct (map fst (mapNewTasks parsed)) \<and> fst ` set (mapNewTasks parsed) = ids parsed"
proof -
  let ?ex = "mapExistingTasks existing" and ?new = "mapNewTasks parsed"
  let ?D = "planned_deletes ?new ?ex" and ?U = "planned_upserts pid ?ex ?new"
  have hx: "map_has ?ex k \<longleftrightarrow> k \<in> ids existing" for k
    by (simp add: mapExistingTasks_def map_has_mapTasks)
  have kn: "fst ` set ?new = ids parsed" by (simp add: mapNewTasks_def keys_mapTasks)
  have kx: "fst ` set ?ex = ids existing" by (simp add: mapExistingTasks_def keys_mapTasks)
  have 1: "snd (sync_tasks thr pid existing parsed tr) = tr @ (?D @ ?U)"
    using sync_tasks_success [OF assms] by simp
  have 2: "(\<exists>c s d r. UpdateTask k c s d r \<in> set (?D @ ?U)) \<longleftrightarrow> (k \<in> ids existing \<and> k \<in> ids parsed)" for k
  proof -
    have "(\<exists>c s d r. UpdateTask k c s d r \<in> set (?D @ ?U)) \<longleftrightarrow> (map_has ?ex k \<and> (\<exists>t. (k, t) \<in> set ?new))"
      by (simp add: update_in_deletes update_in_upserts)
    also have "\<dots> \<longleftrightarrow> (k \<in> ids existing \<and> k \<in> fst ` set ?new)"
      by (force simp: hx)
    finally show ?thesis by (simp add: kn)
  qed
  have 3: "DeleteTask k \<in> set (?D @ ?U) \<longleftrightarrow> (k \<in> ids existing \<and> k \<notin> ids parsed)" for k
    using kx by (auto simp: delete_in_upserts planned_deletes_ids)
  have 4: "filter is_add (?D @ ?U) =
        map (\<lambda>(k, t). AddTask pid (content t) (status t) (dueDate t) (parentId t) (repeatFrequency t))
          (filter (\<lambda>(k, t). k \<notin> ids existing) ?new)"
    by (simp add: filter_add_deletes filter_add_upserts hx)
  have 5: "distinct (map fst ?new)" by (simp add: mapNewTasks_def distinct_mapTasks)
  have d: "drop (length tr) (snd (sync_tasks thr pid existing parsed tr)) = ?D @ ?U"
    and t: "take (length tr) (snd (sync_tasks thr pid existing parsed tr)) = tr"
    unfolding 1 by simp_all
  show ?thesis unfolding d t using 2 3 4 5 kn by blast
qed

text \<open>
  On the example: \<open>a\<close> is updated, \<open>b\<close> is deleted and \<open>c\<close> is created.
\<close>

theorem sync_matches_by_id_witness:
  "fst (sync_tasks (\<lambda>t. False) ''p'' example_existing example_parsed []) = json_success \<and>
   ids example_existing = {''a'', ''b''} \<and> ids example_parsed = {''a'', ''c''} \<and>
   (\<exists>c s d r. UpdateTask ''a'' c s d r \<in>
       set (snd (sync_tasks (\<lambda>t. False) ''p'' example_existing example_parsed []))) \<and>
   DeleteTask ''b'' \<in> set (snd (sync_tasks (\<lambda>t. False) ''p'' example_existing example_parsed [])) \<and>
   DeleteTask ''a'' \<notin> set (snd (sync_tasks (\<lambda>t. False) ''p'' example_existing example_parsed [])) \<and>
   filter is_add (snd (sync_tasks (\<lambda>t. False) ''p'' example_existing example_parsed [])) =
     [AddTask ''p'' ''Setup'' Todo None None (Some Weekly)]"
proof -
  let ?new = "snd (sync_tasks (\<lambda>t. False) ''p'' example_existing example_parsed [])"
  have ok: "fst (sync_tasks (\<lambda>t. False) ''p'' example_existing example_parsed []) = json_success"
    by (rule sync_tasks_no_throw) simp
  have i: "ids example_existing = {''a'', ''b''}" "ids example_parsed = {''a'', ''c''}"
    by (auto simp: ids_def example_existing_def example_parsed_def)
  have m: "mapNewTasks example_parsed = 
     [(''a'', Task ''a'' ''Buy oat milk'' Done (Some ''2025-11-23'') None
        ''- [x] Buy oat milk #due:2025-11-23'' 3 None []),
      (''c'', Task ''c'' ''Setup'' Todo None (Some Weekly) ''- [ ] Setup #repeat:weekly'' 4 None [])]"
    by (simp add: mapNewTasks_def example_parsed_def)
  note T = sync_matches_by_id [OF ok]
  have dr: "drop (length ([]::call list)) ?new = ?new" by simp
  note T1 = T [THEN conjunct2]
  note u0 = T1 [THEN conjunct1, unfolded dr, rule_format]
  note dl0 = T1 [THEN conjunct2, THEN conjunct1, unfolded dr, rule_format]
  note a = T1 [THEN conjunct2, THEN conjunct2, THEN conjunct1, unfolded dr]
  have u: "(\<exists>c s d r. UpdateTask k c s d r \<in> set ?new) \<longleftrightarrow> (k \<in> ids example_existing \<and> k \<in> ids example_parsed)" for k
    by (rule u0)
  have dl: "DeleteTask k \<in> set ?new \<longleftrightarrow> (k \<in> ids example_existing \<and> k \<notin> ids example_parsed)" for k
    by (rule dl0)
  have "\<exists>c s d r. UpdateTask ''a'' c s d r \<in> set ?new" using u [of "''a''"] i by simp
  moreover have "DeleteTask ''b'' \<in> set ?new" using dl [of "''b''"] i by simp
  moreover have "DeleteTask ''a'' \<notin> set ?new" using dl [of "''a''"] i by simp
  moreover have "filter is_add ?new = [AddTask ''p'' ''Setup'' Todo None None (Some Weekly)]"
    using a by (simp add: m i)
  ultimately show ?thesis using ok i by blast
qed

text \<open>
  C1, as stated, fails. Two forests of one task each, at the same position \<open>[0]\<close> but with
  different ids, are not matched: the existing task is deleted and the incoming one is
  created. And two forests with the tasks \<open>a\<close> and \<open>b\<close> in swapped order are matched
  across positions: the incoming task at position \<open>[0]\<close> updates the existing task at
  position \<open>[1]\<close>, and nothing is deleted or created.
\<close>

theorem sync_positions_counterexample:
  "node_at [leaf ''a'' ''A''] [0] = Some (leaf ''a'' ''A'') \<and>
   node_at [leaf ''b'' ''A''] [0] = Some (leaf ''b'' ''A'') \<and>
   sync_tasks (\<lambda>t. False) ''p'' [leaf ''a'' ''A''] [leaf ''b'' ''A''] [] =
     (json_success, [DeleteTask ''a'', AddTask ''p'' ''A'' Todo None None None]) \<and>
   node_at [leaf ''a'' ''A'', leaf ''b'' ''B''] [1] = Some (leaf ''b'' ''B'') \<and>
   node_at [leaf ''b'' ''B'', leaf ''a'' ''A''] [0] = Some (leaf ''b'' ''B'') \<and>
   sync_tasks (\<lambda>t. False) ''p'' [leaf ''a'' ''A'', leaf ''b'' ''B''] [leaf ''b'' ''B'', leaf ''a'' ''A''] [] =
     (json_success, [UpdateTask ''b'' ''B'' Todo None None, UpdateTask ''a'' ''A'' Todo None None])"
  by code_simp

lemma map_set_apsnd: "map (apsnd f) (map_set m k v) = map_set (map (apsnd f) m) k (f v)"
  by (induction m) auto

lemma fold_set_core:
  "map (apsnd g) (fold (\<lambda>t m. map_set m (f t) t) xs m) =
     fold (\<lambda>c m. map_set m (fst c) (snd c)) (map (\<lambda>t. (f t, g t)) xs) (map (apsnd g) m)"
  by (induction xs arbitrary: m) (simp_all add: map_set_apsnd)

lemma mapTasks_core:
  "map (apsnd core) (mapTasks ts []) =
     fold (\<lambda>c m. map_set m (fst c) (snd c)) (map (\<lambda>t. (task_id t, core t)) (flatten ts)) []"
  using fold_set_core [of core task_id "flatten ts" "[]"] by (simp add: mapTask_mapTasks_fold)

lemma same_core_maps:
  assumes "map core (flatten parsed) = map core (flatten parsed')"
  shows "map (apsnd core) (mapTasks parsed []) = map (apsnd core) (mapTasks parsed' [])"
proof -
  have eq: "map (\<lambda>t. (task_id t, core t)) (flatten ts) = map (\<lambda>c. (fst c, c)) (map core (flatten ts))" for ts
    unfolding map_map by (rule map_cong) (simp_all add: core_def)
  show ?thesis by (simp only: mapTasks_core eq assms)
qed

lemma filter_update_upserts:
  "filter is_update (planned_upserts pid ex new) =
     map (\<lambda>(k, i, c, s, d, r). UpdateTask k c s d r)
       (filter (\<lambda>(k, x). map_has ex k) (map (apsnd core) new))"
  by (induction new) (auto simp: planned_upserts_def upsert_call_def core_def)

text \<open>
  C8. An \<open>updateTask\<close> call is issued only for an id of the existing forest, and it carries
  the content, status, dueDate and repeatFrequency of a task of the parsed forest with
  that id: the call has no parentId. So two parsed forests whose tasks agree, in document
  order, on id and on these four fields (whatever their nesting and their parentIds are)
  lead to the same \<open>updateTask\<close> calls.
\<close>

theorem sync_update_ignores_parent:
  assumes "map core (flatten parsed) = map core (flatten parsed')"
  shows "filter is_update (snd (sync_tasks (\<lambda>t. False) pid existing parsed tr)) =
         filter is_update (snd (sync_tasks (\<lambda>t. False) pid existing parsed' tr)) \<and>
         (\<forall>k c s d r. UpdateTask k c s d r \<in>
              set (drop (length tr) (snd (sync_tasks thr pid existing parsed tr))) \<longrightarrow>
            k \<in> ids existing \<and> (\<exists>t \<in> set (flatten parsed). core t = (k, c, s, d, r)))"
proof -
  let ?ex = "mapExistingTasks existing"
  have ok: "fst (sync_tasks (\<lambda>t. False) pid existing p tr) = json_success" for p
    by (rule sync_tasks_no_throw) simp
  have u: "filter is_update (snd (sync_tasks (\<lambda>t. False) pid existing p tr)) =
      filter is_update tr @ map (\<lambda>(k, i, c, s, d, r). UpdateTask k c s d r)
       (filter (\<lambda>(k, x). map_has ?ex k) (map (apsnd core) (mapTasks p [])))" for p
    using sync_tasks_success [OF ok, of p]
    by (simp add: filter_update_deletes filter_update_upserts mapNewTasks_def)
  have A: "filter is_update (snd (sync_tasks (\<lambda>t. False) pid existing parsed tr)) =
         filter is_update (snd (sync_tasks (\<lambda>t. False) pid existing parsed' tr))"
    unfolding u same_core_maps [OF assms] ..
  have B: "k \<in> ids existing \<and> (\<exists>t \<in> set (flatten parsed). core t = (k, c, s, d, r))"
    if h: "UpdateTask k c s d r \<in> set (drop (length tr) (snd (sync_tasks thr pid existing parsed tr)))"
    for k c s d r
  proof -
    let ?D = "planned_deletes (mapNewTasks parsed) ?ex"
    let ?U = "planned_upserts pid ?ex (mapNewTasks parsed)"
    from sync_tasks_take [of thr pid existing parsed tr] obtain n where
      "snd (sync_tasks thr pid existing parsed tr) = tr @ take n (?D @ ?U)" by blast
    with h have "UpdateTask k c s d r \<in> set (take n (?D @ ?U))" by simp
    then have "UpdateTask k c s d r \<in> set (?D @ ?U)" by (rule in_set_takeD)
    then have "UpdateTask k c s d r \<in> set ?U" by (simp add: update_in_deletes)
    then obtain t where m: "map_has ?ex k" and e: "(k, t) \<in> set (mapNewTasks parsed)"
      and f: "c = content t" "s = status t" "d = dueDate t" "r = repeatFrequency t"
      unfolding update_in_upserts by blast
    from e have "t \<in> set (flatten parsed)" "task_id t = k"
      using entries_mapTasks [of k t parsed] by (simp_all add: mapNewTasks_def)
    with f have "t \<in> set (flatten parsed) \<and> core t = (k, c, s, d, r)" by (simp add: core_def)
    moreover from m have "k \<in> ids existing" by (simp add: mapExistingTasks_def map_has_mapTasks)
    ultimately show ?thesis by blast
  qed
  from A B show ?thesis by blast
qed

text \<open>
  Moving \<open>Pick brand\<close> from under \<open>Buy milk\<close> to the top level changes its parentId and
  none of the \<open>updateTask\<close> calls.
\<close>

theorem sync_update_ignores_parent_witness:
  "map core (flatten example_existing) = map core (flatten example_reparented) \<and>
   map parentId (flatten example_existing) \<noteq> map parentId (flatten example_reparented) \<and>
   filter is_update (snd (sync_tasks (\<lambda>t. False) ''p'' example_existing example_reparented [])) =
     [UpdateTask ''a'' ''Buy milk'' Todo None None, UpdateTask ''b'' ''Pick brand'' Todo None None]"
proof -
  have c: "map core (flatten example_existing) = map core (flatten example_reparented)"
    by (simp add: example_existing_def example_reparented_def core_def)
  have p: "map parentId (flatten example_existing) \<noteq> map parentId (flatten example_reparented)"
    by (simp add: example_existing_def example_reparented_def)
  have e: "filter is_update (snd (sync_tasks (\<lambda>t. False) ''p'' example_existing example_existing [])) =
     [UpdateTask ''a'' ''Buy milk'' Todo None None, UpdateTask ''b'' ''Pick brand'' Todo None None]"
    by code_simp
  from sync_update_ignores_parent [OF c, of "''p''" example_existing "[]", THEN conjunct1] e p c
  show ?thesis by simp
qed

subsection \<open>The handler\<close>

lemma PUT_reaches_sync:
  assumes "valid (validateProjectId d (req_projectId r))"
    and "req_json r = Inr b" and "destructure_content b = Inr c" and "typeof_string c = Some s"
    and "useSupabase e" and "auth d = Inr (Some uid)" and "uid \<noteq> []"
    and "getProject d (req_projectId r) uid = Inr (Some proj)"
    and "parseMarkdown d (req_projectId r) s '''' = Inr parsed"
  shows "PUT d e r = sync_tasks (call_throws d) (req_projectId r) (tasks proj) (tasks parsed)
           [ParseMarkdown (req_projectId r) s '''']"
  using assms by (simp add: PUT_def PUT_supabase_def Let_def)

text \<open>
  The value that the \<open>catch\<close> block receives and the response agree: something is caught
  exactly when the response has status 500.
\<close>

lemma PUT_thrown_status:
  "(PUT_thrown d e r \<noteq> None) = (resp_status (fst (PUT d e r)) = 500)"
  by (auto simp: PUT_thrown_def PUT_def PUT_supabase_thrown_def PUT_supabase_def
      PUT_file_thrown_def PUT_file_def sync_tasks_thrown_def sync_tasks_def caught_def
      json_error_def json_success_def Let_def
      split: sum.splits option.splits prod.splits bool.splits if_splits)

text \<open>
  When the parse throws, the response is the fixed one of the \<open>catch\<close> block; the thrown
  value is logged and is not part of the response.
\<close>

lemma PUT_parse_error_response:
  assumes "valid (validateProjectId d (req_projectId r))"
    and "req_json r = Inr b" and "destructure_content b = Inr c" and "typeof_string c = Some s"
    and "useSupabase e" and "auth d = Inr (Some uid)" and "uid \<noteq> []"
    and "getProject d (req_projectId r) uid = Inr (Some proj)"
    and "parseMarkdown d (req_projectId r) s '''' = Inl err"
  shows "fst (PUT d e r) =
           \<lparr>resp_body = ErrorBody (Some ''Failed to save project content''), resp_status = 500\<rparr>"
  using assms by (simp add: PUT_def PUT_supabase_def Let_def caught_def)

text \<open>
  Without the database settings the handler calls no parser: its only call, if any, is the
  file write.
\<close>

lemma PUT_file_never_parses:
  assumes "\<not> useSupabase e"
  shows "snd (PUT d e r) = [] \<or> (\<exists>f c. snd (PUT d e r) = [WriteFile f c])"
  using assms
  by (auto simp: PUT_def PUT_file_def Let_def caught_def split: sum.splits option.splits)

text \<open>
  The parser of the design attaches the offending line: when it fails, the error is a
  \<open>ParseValidationError\<close> whose line number is that of the first task line that the Tag
  Extractor rejects, and whose message is the extractor's.
\<close>

lemma builder_step_Inl:
  "builder_step projectId b (n, l) = Inl err \<longleftrightarrow>
     (\<exists>indent checked text msg. classify_line l = TaskLine indent checked text \<and>
        extract_tags text = Inl (ValidationError msg) \<and> err = ParseValidationError n msg)"
  by (auto simp: builder_step_def Let_def split: line_class.splits sum.splits validation_error.splits)

lemma builder_run_error_line:
  assumes "builder_run projectId b n ls = Inl err"
  shows "\<exists>k msg indent checked text.
           k < length ls \<and> err = ParseValidationError (n + k) msg \<and>
           classify_line (ls ! k) = TaskLine indent checked text \<and>
           extract_tags text = Inl (ValidationError msg) \<and>
           (\<forall>j<k. \<forall>i c t. classify_line (ls ! j) = TaskLine i c t \<longrightarrow> (\<exists>tags. extract_tags t = Inr tags))"
  using assms
proof (induction ls arbitrary: b n)
  case Nil
  then show ?case by simp
next
  case (Cons l ls)
  show ?case
  proof (cases "builder_step projectId b (n, l)")
    case (Inl e)
    with Cons.prems have e: "e = err" by simp
    from Inl [unfolded e builder_step_Inl] obtain indent checked tx msg where
      "classify_line l = TaskLine indent checked tx"
      "extract_tags tx = Inl (ValidationError msg)" "err = ParseValidationError n msg"
      by blast
    then show ?thesis by (intro exI [of _ 0]) auto
  next
    case (Inr b')
    with Cons.prems have "builder_run projectId b' (Suc n) ls = Inl err" by simp
    from Cons.IH [OF this] obtain k msg indent checked tx where k:
      "k < length ls" "err = ParseValidationError (Suc n + k) msg"
      "classify_line (ls ! k) = TaskLine indent checked tx"
      "extract_tags tx = Inl (ValidationError msg)"
      "\<forall>j<k. \<forall>i c t. classify_line (ls ! j) = TaskLine i c t \<longrightarrow> (\<exists>tags. extract_tags t = Inr tags)"
      by blast
    have l: "\<forall>i c t. classify_line l = TaskLine i c t \<longrightarrow> (\<exists>tags. extract_tags t = Inr tags)"
    proof (intro allI impI)
      fix i c t assume cl: "classify_line l = TaskLine i c t"
      show "\<exists>tags. extract_tags t = Inr tags"
      proof (cases "extract_tags t")
        case (Inl v)
        obtain m where "v = ValidationError m" by (cases v)
        with Inl cl have "builder_step projectId b (n, l) = Inl (ParseValidationError n m)"
          unfolding builder_step_Inl by blast
        with Inr show ?thesis by simp
      next
        case (Inr tags)
        then show ?thesis by blast
      qed
    qed
    have m: "\<forall>j<Suc k. \<forall>i c t. classify_line ((l # ls) ! j) = TaskLine i c t \<longrightarrow> (\<exists>tags. extract_tags t = Inr tags)"
    proof (intro allI impI)
      fix j i c t assume j: "j < Suc k" and cl: "classify_line ((l # ls) ! j) = TaskLine i c t"
      show "\<exists>tags. extract_tags t = Inr tags"
      proof (cases j)
        case 0
        with cl l show ?thesis by simp
      next
        case (Suc j')
        with j cl k(5) show ?thesis by simp
      qed
    qed
    show ?thesis
      apply (rule exI [of _ "Suc k"], rule exI [of _ msg], rule exI [of _ indent],
          rule exI [of _ checked], rule exI [of _ tx])
      using k(1-4) m by simp
  qed
qed

lemma parseDocument_error_line:
  assumes "parseDocument projectId title' body existing = Inl err"
  shows "\<exists>k msg indent checked text.
           k < length (split_lines body) \<and> err = ParseValidationError (Suc k) msg \<and>
           classify_line (split_lines body ! k) = TaskLine indent checked text \<and>
           extract_tags text = Inl (ValidationError msg) \<and>
           (\<forall>j<k. \<forall>i c t. classify_line (split_lines body ! j) = TaskLine i c t \<longrightarrow>
                     (\<exists>tags. extract_tags t = Inr tags))"
proof -
  from assms have "builder_run projectId
      \<lparr>b_title = title', b_forest = [], b_stack = [], b_section = None, b_counter = 1\<rparr>
      1 (split_lines body) = Inl err"
    by (simp add: parseDocument_def split: sum.splits)
  from builder_run_error_line [OF this] show ?thesis by simp
qed

lemma parseMarkdown'_error_line:
  assumes "parseMarkdown' projectId content' filePath = Inl err"
  shows "\<exists>k msg indent checked text.
           k < length (split_lines content') \<and> err = ParseValidationError (Suc k) msg \<and>
           classify_line (split_lines content' ! k) = TaskLine indent checked text \<and>
           extract_tags text = Inl (ValidationError msg) \<and>
           (\<forall>j<k. \<forall>i c t. classify_line (split_lines content' ! j) = TaskLine i c t \<longrightarrow>
                     (\<exists>tags. extract_tags t = Inr tags))"
proof -
  from assms have "parseDocument projectId '''' content' None = Inl err"
    by (simp add: parseMarkdown'_def split: sum.splits prod.splits)
  from parseDocument_error_line [OF this] show ?thesis .
qed




text \<open>
  C10. A request whose body has a \<open>content\<close> that is not a string (the body is any JSON
  value from which \<open>content\<close> can be read, that is, any value but \<open>null\<close>) is answered with
  status 400 and an error message, and no call is issued: no parse, no \<open>deleteTask\<close>,
  \<open>updateTask\<close>, \<open>addTask\<close> and no file write. The message is \<open>Content must be a string\<close>
  when the project id is valid, and the project-id validation's own error otherwise.
\<close>

theorem PUT_content_not_string:
  assumes "req_json r = Inr b"
    and "destructure_content b = Inr c"
    and "typeof_string c = None"
  shows "resp_status (fst (PUT d e r)) = 400 \<and> snd (PUT d e r) = [] \<and>
         resp_body (fst (PUT d e r)) =
           ErrorBody (if valid (validateProjectId d (req_projectId r))
                      then Some ''Content must be a string''
                      else error (validateProjectId d (req_projectId r)))"
  using assms by (simp add: PUT_def json_error_def Let_def)

text \<open>
  A body \<open>{"content": 42}\<close>.
\<close>

theorem PUT_content_not_string_witness:
  "resp_status (fst (PUT (example_deps 3) example_env (example_request (JObj [(''content'', JNum 42)])))) = 400 \<and>
   snd (PUT (example_deps 3) example_env (example_request (JObj [(''content'', JNum 42)]))) = [] \<and>
   resp_body (fst (PUT (example_deps 3) example_env (example_request (JObj [(''content'', JNum 42)])))) =
     ErrorBody (Some ''Content must be a string'')"
proof -
  let ?r = "example_request (JObj [(''content'', JNum 42)])"
  have 1: "req_json ?r = Inr (JObj [(''content'', JNum 42)])" by (simp add: example_request_def)
  have 2: "destructure_content (JObj [(''content'', JNum 42)]) = Inr (Some (JNum 42))" by simp
  have 3: "typeof_string (Some (JNum 42)) = None" by simp
  have v: "valid (validateProjectId (example_deps 3) (req_projectId ?r))"
    by (simp add: example_deps_def)
  from PUT_content_not_string [OF 1 2 3, of "example_deps 3" example_env] v
  show ?thesis by simp
qed

section \<open>Properties of the patterns\<close>

lemma strip_prefix_Some: "strip_prefix p s = Some r \<longleftrightarrow> s = p @ r"
  by (induction p s rule: strip_prefix.induct) auto

lemma strip_prefix_append: "strip_prefix p (p @ r) = Some r"
  by (simp add: strip_prefix_Some)

lemma match_due_here_Some:
  "match_due_here s = Some (d, r) \<longleftrightarrow> (s = ''#due:'' @ d @ r \<and> date_shape d)"
proof
  assume "match_due_here s = Some (d, r)"
  then obtain x where x: "s = ''#due:'' @ x" "date_shape (take 10 x)" "d = take 10 x" "r = drop 10 x"
    unfolding match_due_here_def
    by (auto simp: strip_prefix_Some split: option.splits if_splits)
  then show "s = ''#due:'' @ d @ r \<and> date_shape d" by simp
next
  assume h: "s = ''#due:'' @ d @ r \<and> date_shape d"
  then have l: "length d = 10" by (simp add: date_shape_def)
  have sp: "strip_prefix ''#due:'' s = Some (d @ r)" using h by (simp add: strip_prefix_Some)
  show "match_due_here s = Some (d, r)"
    unfolding match_due_here_def sp using h l by simp
qed

lemma exec_due_Some:
  "exec_DUE_DATE_PATTERN line = Some d \<Longrightarrow>
     date_shape d \<and> (\<exists>pre post. line = pre @ ''#due:'' @ d @ post)"
proof (induction line)
  case Nil
  then show ?case by simp
next
  case (Cons c cs)
  show ?case
  proof (cases "match_due_here (c # cs)")
    case None
    with Cons obtain pre post where "date_shape d" "cs = pre @ ''#due:'' @ d @ post" by auto
    then have "c # cs = (c # pre) @ ''#due:'' @ d @ post" by simp
    with \<open>date_shape d\<close> show ?thesis by blast
  next
    case (Some a)
    obtain d' r where a: "a = (d', r)" by (cases a)
    with Some Cons.prems have "d' = d" by simp
    with Some a have "c # cs = [] @ ''#due:'' @ d @ r \<and> date_shape d"
      by (simp add: match_due_here_Some)
    then show ?thesis by blast
  qed
qed

lemma exec_due_here:
  assumes "date_shape d"
  shows "exec_DUE_DATE_PATTERN (''#due:'' @ d @ post) = Some d"
proof -
  have "match_due_here (''#due:'' @ d @ post) = Some (d, post)"
    using assms by (simp add: match_due_here_Some)
  then show ?thesis by simp
qed

lemma exec_due_append: "exec_DUE_DATE_PATTERN s \<noteq> None \<Longrightarrow> exec_DUE_DATE_PATTERN (pre @ s) \<noteq> None"
  by (induction pre) (auto split: option.splits)

text \<open>
  C5, as the code has it. The due-date pattern checks the shape of the digits and nothing
  else: a date it captures is four digits, a hyphen, two digits, a hyphen and two digits,
  standing in the line right after \<open>#due:\<close>; and every text of that shape after \<open>#due:\<close>
  is captured, whatever its month and day digits are (with text before the tag, the pattern
  still finds a date: this one or an earlier one).
\<close>

theorem due_pattern_digit_shape:
  "(exec_DUE_DATE_PATTERN line = Some d \<longrightarrow>
      date_shape d \<and> (\<exists>pre post. line = pre @ ''#due:'' @ d @ post)) \<and>
   (date_shape d \<longrightarrow>
      exec_DUE_DATE_PATTERN (''#due:'' @ d @ post) = Some d \<and>
      exec_DUE_DATE_PATTERN (pre @ ''#due:'' @ d @ post) \<noteq> None)"
proof (intro conjI impI)
  assume "exec_DUE_DATE_PATTERN line = Some d"
  from exec_due_Some [OF this]
  show "date_shape d" and "\<exists>pre post. line = pre @ ''#due:'' @ d @ post" by blast+
next
  assume s: "date_shape d"
  show h: "exec_DUE_DATE_PATTERN (''#due:'' @ d @ post) = Some d"
    by (rule exec_due_here [OF s])
  then have "exec_DUE_DATE_PATTERN (''#due:'' @ d @ post) \<noteq> None" by simp
  then show "exec_DUE_DATE_PATTERN (pre @ ''#due:'' @ d @ post) \<noteq> None"
    by (rule exec_due_append)
qed

text \<open>
  A date of the README's example, and the shape \<open>2025-99-00\<close>.
\<close>

theorem due_pattern_digit_shape_witness:
  "exec_DUE_DATE_PATTERN ''Buy groceries #due:2025-11-23'' = Some ''2025-11-23'' \<and>
   date_shape ''2025-11-23'' \<and> date_shape ''2025-99-00'' \<and>
   exec_DUE_DATE_PATTERN (''#due:'' @ ''2025-99-00'' @ '' today'') = Some ''2025-99-00''"
proof -
  have e: "exec_DUE_DATE_PATTERN ''Buy groceries #due:2025-11-23'' = Some ''2025-11-23''"
    by code_simp
  have s: "date_shape ''2025-99-00''" by code_simp
  from due_pattern_digit_shape [of "''Buy groceries #due:2025-11-23''" "''2025-11-23''", THEN conjunct1, rule_format, OF e]
    due_pattern_digit_shape [of _ "''2025-99-00''" "'' today''", THEN conjunct2, rule_format, OF s]
    e s
  show ?thesis by blast
qed

text \<open>
  C5, as stated, fails: the tag \<open>#due:2025-13-40\<close> is captured, with month digits 13 and
  day digits 40.
\<close>

theorem due_pattern_range_counterexample:
  "exec_DUE_DATE_PATTERN ''Pay rent #due:2025-13-40'' = Some ''2025-13-40'' \<and>
   \<not> stated_ranges ''2025-13-40''"
  by code_simp

section \<open>Properties of the Line Classifier\<close>

lemma H1_not_H2: "test_H1_HEADER_PATTERN line \<Longrightarrow> \<not> test_H2_HEADER_PATTERN line"
  by (auto simp: test_H1_HEADER_PATTERN_def test_H2_HEADER_PATTERN_def strip_prefix_Some
      split: option.splits)

lemma H2_iff: "test_H2_HEADER_PATTERN line \<longleftrightarrow> (\<exists>name. line = ''## '' @ name)"
  by (cases "strip_prefix ''## '' line") (auto simp: test_H2_HEADER_PATTERN_def strip_prefix_Some)

text \<open>
  C7. The Line Classifier returns a section exactly for the lines that match the H2 header
  pattern, with the text after \<open>## \<close> as the name. The names \<open>Todo\<close>, \<open>Doing\<close> and
  \<open>Done\<close> map to their status, and every other name maps to todo: the line is a section
  all the same, beyond the three names of the literal grammar.
\<close>

theorem classify_line_section:
  "((\<exists>name. classify_line line = Section name) \<longleftrightarrow> test_H2_HEADER_PATTERN line) \<and>
   classify_line (''## '' @ name) = Section name \<and>
   section_status ''Todo'' = Todo \<and> section_status ''Doing'' = Doing \<and>
   section_status ''Done'' = Done \<and>
   (name \<noteq> ''Todo'' \<and> name \<noteq> ''Doing'' \<and> name \<noteq> ''Done'' \<longrightarrow> section_status name = Todo)"
proof -
  have 1: "(\<exists>name. classify_line line = Section name) \<longleftrightarrow> test_H2_HEADER_PATTERN line"
    using H1_not_H2 [of line]
    by (auto simp: classify_line_def split: option.splits)
  have h2: "test_H2_HEADER_PATTERN (''## '' @ name)" unfolding H2_iff by blast
  with H1_not_H2 have "\<not> test_H1_HEADER_PATTERN (''## '' @ name)" by blast
  with h2 have 2: "classify_line (''## '' @ name) = Section name"
    by (simp add: classify_line_def)
  show ?thesis using 1 2 by (simp add: section_status_def)
qed

text \<open>
  \<open>## Later\<close> is a section with status todo; \<open>##Todo\<close> (no space) is no section.
\<close>

theorem classify_line_section_witness:
  "test_H2_HEADER_PATTERN ''## Later'' \<and> classify_line ''## Later'' = Section ''Later'' \<and>
   section_status ''Later'' = Todo \<and> classify_line ''## Doing'' = Section ''Doing'' \<and>
   \<not> test_H2_HEADER_PATTERN ''##Todo'' \<and> classify_line ''##Todo'' = Other"
proof -
  have n: "''Later'' \<noteq> ''Todo'' \<and> ''Later'' \<noteq> ''Doing'' \<and> ''Later'' \<noteq> ''Done''" by simp
  have t: "test_H2_HEADER_PATTERN ''## Later''" "\<not> test_H2_HEADER_PATTERN ''##Todo''"
    "classify_line ''##Todo'' = Other"
    by code_simp+
  from classify_line_section [of "''## Later''" "''Later''"] n t
    classify_line_section [of "''## Later''" "''Doing''"]
  show ?thesis by simp
qed

section \<open>Properties of the Tag Extractor\<close>

lemma match_repeat_here_Some:
  "match_repeat_here s = Some (f, r) \<longleftrightarrow> s = ''#repeat:'' @ frequency_word f @ r"
proof
  assume "match_repeat_here s = Some (f, r)"
  then show "s = ''#repeat:'' @ frequency_word f @ r"
    unfolding match_repeat_here_def
    by (auto simp: strip_prefix_Some split: option.splits)
next
  assume h: "s = ''#repeat:'' @ frequency_word f @ r"
  have sp: "strip_prefix ''#repeat:'' s = Some (frequency_word f @ r)"
    using h by (simp add: strip_prefix_Some)
  show "match_repeat_here s = Some (f, r)"
    unfolding match_repeat_here_def sp by (cases f) simp_all
qed

lemma exec_repeat_Some:
  "exec_REPEAT_FREQUENCY_PATTERN line = Some f \<Longrightarrow>
     \<exists>pre post. line = pre @ ''#repeat:'' @ frequency_word f @ post"
proof (induction line)
  case Nil
  then show ?case by simp
next
  case (Cons c cs)
  show ?case
  proof (cases "match_repeat_here (c # cs)")
    case None
    with Cons obtain pre post where "cs = pre @ ''#repeat:'' @ frequency_word f @ post" by auto
    then have "c # cs = (c # pre) @ ''#repeat:'' @ frequency_word f @ post" by simp
    then show ?thesis by blast
  next
    case (Some a)
    obtain f' r where a: "a = (f', r)" by (cases a)
    with Some Cons.prems have "f' = f" by simp
    with Some a have "c # cs = [] @ ''#repeat:'' @ frequency_word f @ r"
      by (simp add: match_repeat_here_Some)
    then show ?thesis by blast
  qed
qed

lemma count_due_pos: "0 < count_due s \<longleftrightarrow> exec_DUE_DATE_PATTERN s \<noteq> None"
  by (induction s rule: count_due.induct) (auto split: option.splits)

lemma count_repeat_pos: "0 < count_repeat s \<longleftrightarrow> exec_REPEAT_FREQUENCY_PATTERN s \<noteq> None"
  by (induction s rule: count_repeat.induct) (auto split: option.splits)

text \<open>
  C4. The Tag Extractor fails when the line holds more than one \<open>#due\<close> tag or more than
  one \<open>#repeat\<close> tag. When it succeeds the line held at most one tag of each kind, and the
  one optional date and the one optional frequency it returns are those of the tags. A
  line with exactly one tag of each kind is parsed successfully, and the date and the
  frequency returned are those written in the line.
\<close>

theorem extract_tags_at_most_one:
  "((1 < count_due text \<or> 1 < count_repeat text) \<longrightarrow> (\<exists>e. extract_tags text = Inl e)) \<and>
   (extract_tags text = Inr t \<longrightarrow>
      count_due text \<le> 1 \<and> count_repeat text \<le> 1 \<and>
      tag_dueDate t = exec_DUE_DATE_PATTERN text \<and>
      tag_repeatFrequency t = exec_REPEAT_FREQUENCY_PATTERN text) \<and>
   (count_due text = 1 \<and> count_repeat text = 1 \<longrightarrow>
      (\<exists>c d f. extract_tags text = Inr (Tags c (Some d) (Some f)) \<and> date_shape d \<and>
         (\<exists>pre post. text = pre @ ''#due:'' @ d @ post) \<and>
         (\<exists>pre post. text = pre @ ''#repeat:'' @ frequency_word f @ post)))"
proof (intro conjI impI)
  assume "1 < count_due text \<or> 1 < count_repeat text"
  then show "\<exists>e. extract_tags text = Inl e"
    by (auto simp: extract_tags_def MAX_DUE_TAG_COUNT_def MAX_REPEAT_TAG_COUNT_def)
next
  assume r: "extract_tags text = Inr t"
  then show "count_due text \<le> 1" "count_repeat text \<le> 1"
    "tag_dueDate t = exec_DUE_DATE_PATTERN text"
    "tag_repeatFrequency t = exec_REPEAT_FREQUENCY_PATTERN text"
    by (auto simp: extract_tags_def MAX_DUE_TAG_COUNT_def MAX_REPEAT_TAG_COUNT_def
        split: if_splits)
next
  assume one: "count_due text = 1 \<and> count_repeat text = 1"
  then obtain d f where d: "exec_DUE_DATE_PATTERN text = Some d"
    and f: "exec_REPEAT_FREQUENCY_PATTERN text = Some f"
    using count_due_pos [where s = "text"] count_repeat_pos [where s = "text"] by auto
  have "extract_tags text = Inr (Tags (trim (strip_tags text)) (Some d) (Some f))"
    using one d f by (simp add: extract_tags_def MAX_DUE_TAG_COUNT_def MAX_REPEAT_TAG_COUNT_def)
  moreover from exec_due_Some [OF d]
  have "date_shape d" "\<exists>pre post. text = pre @ ''#due:'' @ d @ post" by blast+
  moreover note exec_repeat_Some [OF f]
  ultimately show "\<exists>c d f. extract_tags text = Inr (Tags c (Some d) (Some f)) \<and> date_shape d \<and>
         (\<exists>pre post. text = pre @ ''#due:'' @ d @ post) \<and>
         (\<exists>pre post. text = pre @ ''#repeat:'' @ frequency_word f @ post)"
    by blast
qed

text \<open>
  Two \<open>#due\<close> tags fail; one tag of each kind gives both values.
\<close>

theorem extract_tags_at_most_one_witness:
  "count_due ''Pay rent #due:2025-01-01 #due:2025-01-02'' = 2 \<and>
   (\<exists>e. extract_tags ''Pay rent #due:2025-01-01 #due:2025-01-02'' = Inl e) \<and>
   count_due ''Take vitamins #due:2025-11-20 #repeat:daily'' = 1 \<and>
   count_repeat ''Take vitamins #due:2025-11-20 #repeat:daily'' = 1 \<and>
   extract_tags ''Take vitamins #due:2025-11-20 #repeat:daily'' =
     Inr (Tags ''Take vitamins'' (Some ''2025-11-20'') (Some Daily)) \<and>
   (\<exists>c d f. extract_tags ''Take vitamins #due:2025-11-20 #repeat:daily'' =
      Inr (Tags c (Some d) (Some f)) \<and> date_shape d)"
proof -
  let ?two = "''Pay rent #due:2025-01-01 #due:2025-01-02''"
  let ?one = "''Take vitamins #due:2025-11-20 #repeat:daily''"
  have c2: "count_due ?two = 2" by code_simp
  have c1: "count_due ?one = 1" "count_repeat ?one = 1" by code_simp+
  have e: "extract_tags ?one = Inr (Tags ''Take vitamins'' (Some ''2025-11-20'') (Some Daily))"
    by code_simp
  from c2 have "1 < count_due ?two \<or> 1 < count_repeat ?two" by simp
  with extract_tags_at_most_one [of ?two] have a: "\<exists>e. extract_tags ?two = Inl e" by blast
  from c1 have "count_due ?one = 1 \<and> count_repeat ?one = 1" by simp
  with extract_tags_at_most_one [of ?one] have
    b: "\<exists>c d f. extract_tags ?one = Inr (Tags c (Some d) (Some f)) \<and> date_shape d"
    by blast
  from a b c1 c2 e show ?thesis by blast
qed

section \<open>Properties of the Recurrence Engine\<close>

lemma days_before_year_Suc:
  "days_before_year (Suc y) = days_before_year y + (if leap_year y then 366 else 365)"
  by (simp add: days_before_year_def)

lemma days_before_month_Suc:
  "1 \<le> m \<Longrightarrow> days_before_month y (Suc m) = days_before_month y m + days_in_month y m"
  by (simp add: days_before_month_def)

lemma days_before_month_1: "days_before_month y (Suc 0) = 0"
  by (simp add: days_before_month_def)

lemma days_before_month_13: "days_before_month y 13 = (if leap_year y then 366 else 365)"
  by (simp add: days_before_month_def eval_nat_numeral days_in_month_def)

lemma next_day_number:
  assumes "valid_date d"
  shows "day_number (next_day d) = day_number d + 1"
proof (cases d)
  case (Date y m dd)
  with assms have v: "1 \<le> m" "m \<le> 12" "1 \<le> dd" "dd \<le> days_in_month y m"
    by (simp_all add: valid_date_def)
  show ?thesis
  proof (cases "dd < days_in_month y m")
    case True
    then show ?thesis by (simp add: Date day_number_def)
  next
    case False
    with v have e: "dd = days_in_month y m" by simp
    show ?thesis
    proof (cases "m < 12")
      case True
      then show ?thesis using v e days_before_month_Suc [of m y]
        by (simp add: Date day_number_def)
    next
      case False
      with v have m: "m = 12" by simp
      have "days_before_month y 13 = days_before_month y 12 + days_in_month y 12"
        using days_before_month_Suc [of 12 y] by simp
      moreover have "days_before_year (y + 1) = days_before_year y + (if leap_year y then 366 else 365)"
        using days_before_year_Suc [of y] by simp
      ultimately show ?thesis using e m
        by (simp add: Date day_number_def days_before_month_13 days_before_month_1)
    qed
  qed
qed

lemma next_day_valid:
  assumes "valid_date d"
  shows "valid_date (next_day d)"
proof (cases d)
  case (Date y m dd)
  with assms show ?thesis
    by (auto simp: valid_date_def days_in_month_def)
qed

lemma add_days_Suc: "add_days (Suc n) d = next_day (add_days n d)"
  by (simp add: add_days_def)

lemma add_days_number:
  "valid_date d \<Longrightarrow> valid_date (add_days n d) \<and> day_number (add_days n d) = day_number d + n"
proof (induction n)
  case 0
  then show ?case by (simp add: add_days_def)
next
  case (Suc n)
  then show ?case
    using next_day_valid [of "add_days n d"] next_day_number [of "add_days n d"]
    by (simp add: add_days_Suc)
qed

lemma add_month_valid:
  assumes "valid_date d"
  shows "valid_date (add_month d)"
proof (cases d)
  case (Date y m dd)
  with assms show ?thesis
    by (auto simp: valid_date_def days_in_month_def min_def)
qed

lemma mod_10_cases:
  obtains "n mod 10 = 0" | "n mod 10 = 1" | "n mod 10 = 2" | "n mod 10 = 3"
    | "n mod 10 = 4" | "n mod 10 = 5" | "n mod 10 = 6" | "n mod 10 = 7" | "n mod 10 = 8"
    | "n mod 10 = (9::nat)"
proof -
  have "n mod 10 < 10" by simp
  then show ?thesis using that by atomize_elim arith
qed

lemma digit_value_digit_char: "digit_value (digit_char n) = n mod 10"
  by (cases n rule: mod_10_cases) (simp_all add: digit_value_def digit_char_def)

lemma is_digit_digit_char: "is_digit (digit_char n)"
  by (cases n rule: mod_10_cases) (simp_all add: is_digit_def digit_char_def)

lemma date_shape_format: "date_shape (format_date d)"
  by (simp add: date_shape_def format_date_def is_digit_digit_char)

lemma number_of_2: "number_of [digit_char (n div 10), digit_char n] = n mod 100"
proof -
  have "n mod 100 = 10 * (n div 10 mod 10) + n mod 10"
    using mod_mult2_eq [of n 10 10] by simp
  then show ?thesis by (simp add: number_of_def digit_value_digit_char)
qed

lemma number_of_4:
  "number_of [digit_char (n div 1000), digit_char (n div 100), digit_char (n div 10), digit_char n]
     = n mod 10000"
proof -
  have a: "n mod 10000 = 100 * (n div 100 mod 100) + n mod 100"
    using mod_mult2_eq [of n 100 100] by simp
  have "n div 100 div 10 = n div 1000" by (simp add: div_mult2_eq [symmetric])
  then have b: "n div 100 mod 100 = 10 * (n div 1000 mod 10) + n div 100 mod 10"
    using mod_mult2_eq [of "n div 100" 10 10] by simp
  have c: "n mod 100 = 10 * (n div 10 mod 10) + n mod 10"
    using mod_mult2_eq [of n 10 10] by simp
  show ?thesis
    by (simp add: number_of_def digit_value_digit_char a b c)
qed

lemma parse_format_date:
  assumes "year d < 10000" and "month d < 100" and "day d < 100"
  shows "parse_date (format_date d) = Some d"
proof -
  have y: "take 4 (format_date d) =
      [digit_char (year d div 1000), digit_char (year d div 100), digit_char (year d div 10),
       digit_char (year d)]"
    and m: "take 2 (drop 5 (format_date d)) = [digit_char (month d div 10), digit_char (month d)]"
    and dd: "drop 8 (format_date d) = [digit_char (day d div 10), digit_char (day d)]"
    by (simp_all add: format_date_def)
  show ?thesis
    unfolding parse_date_def y m dd number_of_2 number_of_4 using assms
    by (cases d) (simp add: date_shape_format)
qed

text \<open>
  C6. For a task with a repeat frequency, \<open>nextOccurrence\<close> returns a skeleton with the
  content, the frequency and the parent of the task and the status todo. Without a due
  date the skeleton has no due date, and there is no error. With a due date that is a
  valid calendar date, the skeleton's due date is a valid calendar date again (written as
  \<open>YYYY-MM-DD\<close>, and read back as the same date up to the year 9999): the day after for
  daily (its day number is one more), seven days after for weekly, and for monthly the
  same day of the next month, clamped to the length of that month.
\<close>

theorem nextOccurrence_next_due:
  assumes "repeatFrequency t = Some f"
  shows "\<exists>sk. nextOccurrence t = Some sk \<and> sk_content sk = content t \<and>
      sk_repeatFrequency sk = Some f \<and> sk_parentId sk = parentId t \<and> sk_status sk = Todo \<and>
      (dueDate t = None \<longrightarrow> sk_dueDate sk = None) \<and>
      (\<forall>s d. dueDate t = Some s \<and> parse_date s = Some d \<and> valid_date d \<longrightarrow>
         sk_dueDate sk = Some (format_date (next_due f d)) \<and> valid_date (next_due f d) \<and>
         (year (next_due f d) < 10000 \<longrightarrow>
            parse_date (format_date (next_due f d)) = Some (next_due f d)) \<and>
         (f = Daily \<longrightarrow> day_number (next_due f d) = day_number d + 1) \<and>
         (f = Weekly \<longrightarrow> day_number (next_due f d) = day_number d + 7) \<and>
         (f = Monthly \<longrightarrow>
            (year (next_due f d), month (next_due f d)) = next_month (year d, month d) \<and>
            day (next_due f d) = min (day d) (days_in_month (year (next_due f d)) (month (next_due f d)))))"
proof -
  let ?sk = "TaskSkeleton (content t) Todo
                  (case dueDate t of
                     None \<Rightarrow> None
                   | Some s \<Rightarrow> map_option (\<lambda>d. format_date (next_due f d)) (parse_date s))
                  (Some f) (parentId t)"
  have n: "nextOccurrence t = Some ?sk" using assms by (simp add: nextOccurrence_def)
  have main: "sk_dueDate ?sk = Some (format_date (next_due f d)) \<and> valid_date (next_due f d) \<and>
         (year (next_due f d) < 10000 \<longrightarrow>
            parse_date (format_date (next_due f d)) = Some (next_due f d)) \<and>
         (f = Daily \<longrightarrow> day_number (next_due f d) = day_number d + 1) \<and>
         (f = Weekly \<longrightarrow> day_number (next_due f d) = day_number d + 7) \<and>
         (f = Monthly \<longrightarrow>
            (year (next_due f d), month (next_due f d)) = next_month (year d, month d) \<and>
            day (next_due f d) = min (day d) (days_in_month (year (next_due f d)) (month (next_due f d))))"
    if h: "dueDate t = Some s \<and> parse_date s = Some d \<and> valid_date d" for s d
  proof -
    from h have v: "valid_date d" by simp
    have v': "valid_date (next_due f d)"
      using add_days_number [OF v] add_month_valid [OF v] by (cases f) simp_all
    then have m: "month (next_due f d) < 100" "day (next_due f d) < 100"
      by (auto simp: valid_date_def days_in_month_def split: if_splits)
    have p: "parse_date (format_date (next_due f d)) = Some (next_due f d)"
      if "year (next_due f d) < 10000"
      using parse_format_date [OF that m] .
    have dl: "day_number (next_due f d) = day_number d + 1" if "f = Daily"
      using add_days_number [OF v, of 1] that by simp
    have wk: "day_number (next_due f d) = day_number d + 7" if "f = Weekly"
      using add_days_number [OF v, of 7] that by simp
    have mo: "(year (next_due f d), month (next_due f d)) = next_month (year d, month d) \<and>
            day (next_due f d) = min (day d) (days_in_month (year (next_due f d)) (month (next_due f d)))"
      if "f = Monthly"
      using that by (cases d) simp
    from h have "sk_dueDate ?sk = Some (format_date (next_due f d))" by simp
    with v' p dl wk mo show ?thesis by blast
  qed
  have none: "dueDate t = None \<longrightarrow> sk_dueDate ?sk = None" by simp
  show ?thesis
  proof (intro exI conjI allI impI)
    show "nextOccurrence t = Some ?sk" by (rule n)
  qed (use main none in \<open>simp_all\<close>)
qed



text \<open>
  The design's examples: daily from 2025-11-23 to 2025-11-24; monthly from 2025-01-31 to
  2025-02-28 and, in a leap year, from 2024-01-31 to 2024-02-29; and no date without a
  due date.
\<close>

theorem nextOccurrence_next_due_witness:
  "nextOccurrence example_daily =
     Some (TaskSkeleton ''Take vitamins'' Todo (Some ''2025-11-24'') (Some Daily) None) \<and>
   day_number (Date 2025 11 24) = day_number (Date 2025 11 23) + 1 \<and>
   nextOccurrence (example_monthly ''2025-01-31'') =
     Some (TaskSkeleton ''Pay rent'' Todo (Some ''2025-02-28'') (Some Monthly) (Some ''t0'')) \<and>
   nextOccurrence (example_monthly ''2024-01-31'') =
     Some (TaskSkeleton ''Pay rent'' Todo (Some ''2024-02-29'') (Some Monthly) (Some ''t0'')) \<and>
   nextOccurrence example_undated =
     Some (TaskSkeleton ''Water plants'' Todo None (Some Weekly) None)"
proof -
  have f: "repeatFrequency example_daily = Some Daily" by (simp add: example_daily_def)
  have h: "dueDate example_daily = Some ''2025-11-23'' \<and>
      parse_date ''2025-11-23'' = Some (Date 2025 11 23) \<and> valid_date (Date 2025 11 23)"
    unfolding example_daily_def by code_simp
  have n: "next_due Daily (Date 2025 11 23) = Date 2025 11 24" by code_simp
  from nextOccurrence_next_due [OF f] obtain sk where
    sk: "nextOccurrence example_daily = Some sk"
    and a: "\<forall>s d. dueDate example_daily = Some s \<and> parse_date s = Some d \<and> valid_date d \<longrightarrow>
         sk_dueDate sk = Some (format_date (next_due Daily d)) \<and> valid_date (next_due Daily d) \<and>
         (year (next_due Daily d) < 10000 \<longrightarrow>
            parse_date (format_date (next_due Daily d)) = Some (next_due Daily d)) \<and>
         (Daily = Daily \<longrightarrow> day_number (next_due Daily d) = day_number d + 1) \<and>
         (Daily = Weekly \<longrightarrow> day_number (next_due Daily d) = day_number d + 7) \<and>
         (Daily = Monthly \<longrightarrow>
            (year (next_due Daily d), month (next_due Daily d)) = next_month (year d, month d) \<and>
            day (next_due Daily d) =
              min (day d) (days_in_month (year (next_due Daily d)) (month (next_due Daily d))))"
    by blast
  from a [rule_format, OF h] have "day_number (next_due Daily (Date 2025 11 23)) = day_number (Date 2025 11 23) + 1"
    by simp
  then have 1: "day_number (Date 2025 11 24) = day_number (Date 2025 11 23) + 1"
    unfolding n .
  have 2: "nextOccurrence example_daily =
     Some (TaskSkeleton ''Take vitamins'' Todo (Some ''2025-11-24'') (Some Daily) None)"
    unfolding example_daily_def by code_simp
  have 3: "nextOccurrence (example_monthly ''2025-01-31'') =
     Some (TaskSkeleton ''Pay rent'' Todo (Some ''2025-02-28'') (Some Monthly) (Some ''t0''))"
    unfolding example_monthly_def
    by (simp add: nextOccurrence_def parse_date_def date_shape_def is_digit_def
        number_of_def digit_value_def days_in_month_def leap_year_def format_date_def
        digit_char_def)
  have 4: "nextOccurrence (example_monthly ''2024-01-31'') =
     Some (TaskSkeleton ''Pay rent'' Todo (Some ''2024-02-29'') (Some Monthly) (Some ''t0''))"
    unfolding example_monthly_def
    by (simp add: nextOccurrence_def parse_date_def date_shape_def is_digit_def
        number_of_def digit_value_def days_in_month_def leap_year_def format_date_def
        digit_char_def)
  have 5: "nextOccurrence example_undated =
     Some (TaskSkeleton ''Water plants'' Todo None (Some Weekly) None)"
    unfolding example_undated_def by (simp add: nextOccurrence_def)
  from 1 2 3 4 5 show ?thesis by simp
qed

section \<open>Round trip of the Renderer and the parser\<close>

subsection \<open>Lines, grafting and the steps of the builder\<close>

lemma split_lines_line:
  "CHR 0x0A \<notin> set l \<Longrightarrow> split_lines (l @ CHR 0x0A # rest) = l # split_lines rest"
  by (induction l) auto

lemma split_lines_unlines:
  "\<forall>l \<in> set ls. CHR 0x0A \<notin> set l \<Longrightarrow>
     split_lines (concat (map (\<lambda>l. l @ [CHR 0x0A]) ls)) = ls @ [[]]"
  by (induction ls) (simp_all add: split_lines_line)

lemma graft_Nil: "graft k [] ns = ns"
  by (induction k "[] :: node list" ns rule: graft.induct) auto

lemma graft_not_Nil: "ns \<noteq> [] \<Longrightarrow> graft k new ns \<noteq> []"
  by (induction k new ns rule: graft.induct) auto

lemma last_depth_snoc: "last_depth (ns @ [Node c s d r subs]) = Suc (last_depth subs)"
proof (induction ns)
  case Nil
  then show ?case by simp
next
  case (Cons a ns)
  then show ?case by (cases a) auto
qed

lemma graft_Suc_snoc:
  "graft (Suc k) new (ns @ [Node c s d r subs]) = ns @ [Node c s d r (graft k new subs)]"
proof (induction ns)
  case Nil
  then show ?case by simp
next
  case (Cons a ns)
  then show ?case by (cases a) auto
qed

lemma last_depth_graft_leaf:
  "k \<le> last_depth ns \<Longrightarrow> last_depth (graft k [Node c s d r []] ns) = Suc k"
  by (induction k "[Node c s d r []]" ns rule: graft.induct)
    (auto simp: last_depth_snoc graft_not_Nil split: if_splits)

lemma last_depth_graft_ge:
  "k \<le> last_depth ns \<Longrightarrow> k \<le> last_depth (graft k new ns)"
  by (induction k new ns rule: graft.induct) (auto simp: graft_not_Nil split: if_splits)

lemma graft_graft_sub:
  "k \<le> last_depth ns \<Longrightarrow>
     graft (Suc k) subs (graft k [Node c s d r []] ns) = graft k [Node c s d r subs] ns"
  by (induction k "[Node c s d r []]" ns rule: graft.induct)
    (auto simp: graft_Suc_snoc graft_not_Nil split: if_splits)

lemma graft_append:
  "k \<le> last_depth ns \<Longrightarrow> graft k bs (graft k as ns) = graft k (as @ bs) ns"
  by (induction k as ns rule: graft.induct) (auto simp: graft_not_Nil split: if_splits)

lemma erase_all_append: "erase_all (xs @ ys) = erase_all xs @ erase_all ys"
  by (induction xs) auto

lemma erase_set_subtasks:
  "erase (set_subtasks t subs) = (case erase t of Node c s d r x \<Rightarrow> Node c s d r (erase_all subs))"
  by (cases t) simp

lemma erase_subtasks: "erase t = Node c s d r ns \<Longrightarrow> erase_all (subtasks t) = ns"
  by (cases t) simp

lemma erase_all_Nil: "erase_all ts = [] \<longleftrightarrow> ts = []"
  by (cases ts) auto

lemma erase_attach:
  assumes "\<And>q. erase (mk q) = n"
  shows "erase_all (attach k mk p ts) = graft k [n] (erase_all ts)"
  using assms
proof (induction k mk p ts rule: attach.induct)
  case (1 mk p ts)
  then show ?case by (simp add: erase_all_append)
next
  case (2 k mk p)
  then show ?case by simp
next
  case (3 k mk p t ts)
  obtain c s d r ns where e: "erase t = Node c s d r ns" by (cases "erase t")
  show ?case
  proof (cases "ts = []")
    case True
    then show ?thesis
      using 3 e by (simp add: erase_set_subtasks erase_subtasks)
  next
    case False
    then show ?thesis using 3 e by (simp add: erase_all_Nil)
  qed
qed

lemma dropWhile_stack:
  "k \<le> m \<Longrightarrow> dropWhile (\<lambda>l. k \<le> l) (rev [0..<m]) = rev [0..<k]"
proof (induction m)
  case 0
  then show ?case by simp
next
  case (Suc m)
  show ?case
  proof (cases "k = Suc m")
    case True
    then show ?thesis by simp
  next
    case False
    with Suc show ?thesis by simp
  qed
qed

lemma builder_step_task:
  assumes c: "classify_line line = TaskLine indent checked txt"
    and l: "indent_level indent = k"
    and x: "extract_tags txt = Inr (Tags c d r)"
    and inv: "stack_ok b"
    and k: "k \<le> last_depth (erase_all (b_forest b))"
  shows "\<exists>b'. builder_step pid b (n, line) = Inr b' \<and> b_title b' = b_title b \<and>
           b_section b' = b_section b \<and>
           erase_all (b_forest b') =
             graft k [Node c (if checked then Done
                              else (case b_section b of None \<Rightarrow> Todo | Some s \<Rightarrow> s)) d r []]
               (erase_all (b_forest b)) \<and>
           stack_ok b' \<and> k \<le> last_depth (erase_all (b_forest b'))"
proof -
  let ?st = "if checked then Done else (case b_section b of None \<Rightarrow> Todo | Some s \<Rightarrow> s)"
  let ?new = "\<lambda>parent. Task (pid @ ''-'' @ decimal (b_counter b)) c ?st d r line n parent []"
  let ?stack = "dropWhile (\<lambda>l. k \<le> l) (b_stack b)"
  have st: "?stack = rev [0..<k]"
    using inv k by (simp add: stack_ok_def dropWhile_stack)
  then have len: "length ?stack = k" by simp
  have push: "(if ?stack = [] then 0 else k) # ?stack = rev [0..<Suc k]"
    unfolding st by (cases k) simp_all
  define b' where "b' = b\<lparr>b_forest := attach k ?new None (b_forest b),
                          b_stack := rev [0..<Suc k], b_counter := Suc (b_counter b)\<rparr>"
  have step: "builder_step pid b (n, line) = Inr b'"
    unfolding builder_step_def b'_def using c l x push len
    by (simp add: Let_def)
  have e: "erase_all (b_forest b') = graft k [Node c ?st d r []] (erase_all (b_forest b))"
    unfolding b'_def by (simp add: erase_attach)
  have d: "last_depth (erase_all (b_forest b')) = Suc k"
    unfolding e using k by (rule last_depth_graft_leaf)
  have "stack_ok b'" unfolding stack_ok_def d by (simp add: b'_def)
  moreover have "b_title b' = b_title b" "b_section b' = b_section b" by (simp_all add: b'_def)
  ultimately show ?thesis using step e d by auto
qed

lemma builder_run_append:
  "builder_run pid b n (xs @ ys) =
     (case builder_run pid b n xs of
        Inl e \<Rightarrow> Inl e
      | Inr b' \<Rightarrow> builder_run pid b' (n + length xs) ys)"
  by (induction xs arbitrary: b n) (auto split: sum.splits)

subsection \<open>Tags in rendered text\<close>

lemma date_shape_chars:
  assumes "date_shape d"
  obtains y1 y2 y3 y4 m1 m2 d1 d2 where
    "d = [y1, y2, y3, y4, CHR ''-'', m1, m2, CHR ''-'', d1, d2]"
    "is_digit y1" "is_digit y2" "is_digit y3" "is_digit y4"
    "is_digit m1" "is_digit m2" "is_digit d1" "is_digit d2"
proof -
  from assms have "length d = 10" by (simp add: date_shape_def)
  then obtain y1 y2 y3 y4 h1 m1 m2 h2 d1 d2 where
    d: "d = [y1, y2, y3, y4, h1, m1, m2, h2, d1, d2]"
    by (auto simp: length_Suc_conv numeral_eq_Suc)
  with assms have "h1 = CHR ''-''" "h2 = CHR ''-''" "is_digit y1" "is_digit y2" "is_digit y3"
    "is_digit y4" "is_digit m1" "is_digit m2" "is_digit d1" "is_digit d2"
    by (simp_all add: date_shape_def)
  with d that show ?thesis by blast
qed

lemma is_digit_simps:
  "is_digit c \<Longrightarrow> c \<noteq> CHR ''#''" "is_digit c \<Longrightarrow> c \<noteq> CHR '' ''"
  "is_digit c \<Longrightarrow> \<not> is_line_terminator c" "is_digit c \<Longrightarrow> c \<noteq> CHR 0x0A"
  by (auto simp: is_digit_def is_line_terminator_def)

lemma due_tag_chars:
  assumes "date_shape d"
  shows "CHR '' '' \<notin> set (''#due:'' @ d)" and "CHR ''#'' \<notin> set (''due:'' @ d)"
    and "list_all (\<lambda>c. \<not> is_line_terminator c) d" and "CHR 0x0A \<notin> set d"
proof -
  from assms obtain y1 y2 y3 y4 m1 m2 d1 d2 where
    d: "d = [y1, y2, y3, y4, CHR ''-'', m1, m2, CHR ''-'', d1, d2]"
    and g: "is_digit y1" "is_digit y2" "is_digit y3" "is_digit y4"
      "is_digit m1" "is_digit m2" "is_digit d1" "is_digit d2"
    by (rule date_shape_chars)
  show "CHR '' '' \<notin> set (''#due:'' @ d)"
    using g [THEN is_digit_simps(2)] by (auto simp: d)
  show "CHR ''#'' \<notin> set (''due:'' @ d)"
    using g [THEN is_digit_simps(1)] by (auto simp: d)
  show "list_all (\<lambda>c. \<not> is_line_terminator c) d"
    using g [THEN is_digit_simps(3)] by (simp add: d is_line_terminator_def)
  show "CHR 0x0A \<notin> set d"
    using g [THEN is_digit_simps(4)] by (auto simp: d)
qed

lemma repeat_tag_chars:
  "CHR '' '' \<notin> set (''#repeat:'' @ frequency_word f)"
  "CHR ''#'' \<notin> set (''repeat:'' @ frequency_word f)"
  "list_all (\<lambda>c. \<not> is_line_terminator c) (frequency_word f)"
  by (cases f; simp add: is_line_terminator_def)+

lemma tag_boundary:
  assumes "x @ CHR '' '' # s = T @ r" and "CHR '' '' \<notin> set T"
  shows "\<exists>u. x = T @ u"
proof -
  from assms(1) obtain u where "(x = T @ u \<and> u @ CHR '' '' # s = r) \<or> (x @ u = T \<and> CHR '' '' # s = u @ r)"
    by (auto simp: append_eq_append_conv2)
  then show ?thesis
  proof
    assume "x = T @ u \<and> u @ CHR '' '' # s = r"
    then show ?thesis by blast
  next
    assume h: "x @ u = T \<and> CHR '' '' # s = u @ r"
    show ?thesis
    proof (cases u)
      case Nil
      with h show ?thesis by simp
    next
      case (Cons a u')
      with h have "a = CHR '' ''" by simp
      with h Cons have "CHR '' '' \<in> set T" by auto
      with assms(2) show ?thesis by simp
    qed
  qed
qed

lemma match_due_boundary:
  assumes "match_due_here (x @ CHR '' '' # s) \<noteq> None"
  shows "match_due_here x \<noteq> None"
proof -
  from assms obtain d r where m: "match_due_here (x @ CHR '' '' # s) = Some (d, r)" by auto
  then have e: "x @ CHR '' '' # s = (''#due:'' @ d) @ r" and sh: "date_shape d"
    by (simp_all add: match_due_here_Some)
  from tag_boundary [OF e due_tag_chars(1) [OF sh]] obtain u where "x = ''#due:'' @ d @ u"
    by auto
  with sh have "match_due_here x = Some (d, u)" by (simp add: match_due_here_Some)
  then show ?thesis by simp
qed

lemma match_repeat_boundary:
  assumes "match_repeat_here (x @ CHR '' '' # s) \<noteq> None"
  shows "match_repeat_here x \<noteq> None"
proof -
  from assms obtain f r where m: "match_repeat_here (x @ CHR '' '' # s) = Some (f, r)" by auto
  then have e: "x @ CHR '' '' # s = (''#repeat:'' @ frequency_word f) @ r"
    by (simp add: match_repeat_here_Some)
  from tag_boundary [OF e repeat_tag_chars(1)] obtain u where
    "x = ''#repeat:'' @ frequency_word f @ u"
    by auto
  then have "match_repeat_here x = Some (f, u)" by (simp add: match_repeat_here_Some)
  then show ?thesis by simp
qed

lemma match_due_boundary_None:
  assumes "match_due_here x = None"
  shows "match_due_here (x @ CHR '' '' # s) = None"
proof (rule ccontr)
  assume "match_due_here (x @ CHR '' '' # s) \<noteq> None"
  from match_due_boundary [OF this] assms show False by simp
qed

lemma match_repeat_boundary_None:
  assumes "match_repeat_here x = None"
  shows "match_repeat_here (x @ CHR '' '' # s) = None"
proof (rule ccontr)
  assume "match_repeat_here (x @ CHR '' '' # s) \<noteq> None"
  from match_repeat_boundary [OF this] assms show False by simp
qed

lemma match_here_hash:
  assumes "c \<noteq> CHR ''#''"
  shows "match_due_here (c # s) = None" and "match_repeat_here (c # s) = None"
proof -
  show "match_due_here (c # s) = None"
  proof (cases "match_due_here (c # s)")
    case (Some a)
    then show ?thesis using assms by (cases a) (simp add: match_due_here_Some)
  qed simp
  show "match_repeat_here (c # s) = None"
  proof (cases "match_repeat_here (c # s)")
    case (Some a)
    then show ?thesis using assms by (cases a) (simp add: match_repeat_here_Some)
  qed simp
qed

lemma match_here_space:
  "match_due_here (CHR '' '' # s) = None" "match_repeat_here (CHR '' '' # s) = None"
  by (simp_all add: match_here_hash)

lemma exec_due_None_Cons:
  "exec_DUE_DATE_PATTERN (c # cs) = None \<longleftrightarrow>
     match_due_here (c # cs) = None \<and> exec_DUE_DATE_PATTERN cs = None"
  by (auto split: option.splits)

lemma exec_repeat_None_Cons:
  "exec_REPEAT_FREQUENCY_PATTERN (c # cs) = None \<longleftrightarrow>
     match_repeat_here (c # cs) = None \<and> exec_REPEAT_FREQUENCY_PATTERN cs = None"
  by (auto split: option.splits)

lemma scan_due_step:
  assumes "exec_DUE_DATE_PATTERN (a # x) = None"
  shows "match_due_here (a # x @ CHR '' '' # s) = None" and "exec_DUE_DATE_PATTERN x = None"
proof -
  from assms have m: "match_due_here (a # x) = None" and e: "exec_DUE_DATE_PATTERN x = None"
    unfolding exec_due_None_Cons by simp_all
  from match_due_boundary_None [OF m, of s] show "match_due_here (a # x @ CHR '' '' # s) = None"
    by simp
  from e show "exec_DUE_DATE_PATTERN x = None" .
qed

lemma scan_repeat_step:
  assumes "exec_REPEAT_FREQUENCY_PATTERN (a # x) = None"
  shows "match_repeat_here (a # x @ CHR '' '' # s) = None"
    and "exec_REPEAT_FREQUENCY_PATTERN x = None"
proof -
  from assms have m: "match_repeat_here (a # x) = None"
    and e: "exec_REPEAT_FREQUENCY_PATTERN x = None"
    unfolding exec_repeat_None_Cons by simp_all
  from match_repeat_boundary_None [OF m, of s]
  show "match_repeat_here (a # x @ CHR '' '' # s) = None"
    by simp
  from e show "exec_REPEAT_FREQUENCY_PATTERN x = None" .
qed

lemma scan_due_count:
  "exec_DUE_DATE_PATTERN x = None \<Longrightarrow> count_due (x @ CHR '' '' # s) = count_due s"
proof (induction x)
  case Nil
  show ?case by (simp add: match_here_space)
next
  case (Cons a x)
  from scan_due_step(1) [OF Cons.prems, of s] scan_due_step(2) [OF Cons.prems] Cons.IH
  show ?case by simp
qed

lemma scan_due_exec:
  "exec_DUE_DATE_PATTERN x = None \<Longrightarrow>
     exec_DUE_DATE_PATTERN (x @ CHR '' '' # s) = exec_DUE_DATE_PATTERN s"
proof (induction x)
  case Nil
  show ?case by (simp add: match_here_space)
next
  case (Cons a x)
  from scan_due_step(1) [OF Cons.prems, of s] scan_due_step(2) [OF Cons.prems] Cons.IH
  show ?case by simp
qed

lemma scan_repeat_count:
  "exec_REPEAT_FREQUENCY_PATTERN x = None \<Longrightarrow>
     count_repeat (x @ CHR '' '' # s) = count_repeat s"
proof (induction x)
  case Nil
  show ?case by (simp add: match_here_space)
next
  case (Cons a x)
  from scan_repeat_step(1) [OF Cons.prems, of s] scan_repeat_step(2) [OF Cons.prems] Cons.IH
  show ?case by simp
qed

lemma scan_repeat_exec:
  "exec_REPEAT_FREQUENCY_PATTERN x = None \<Longrightarrow>
     exec_REPEAT_FREQUENCY_PATTERN (x @ CHR '' '' # s) = exec_REPEAT_FREQUENCY_PATTERN s"
proof (induction x)
  case Nil
  show ?case by (simp add: match_here_space)
next
  case (Cons a x)
  from scan_repeat_step(1) [OF Cons.prems, of s] scan_repeat_step(2) [OF Cons.prems] Cons.IH
  show ?case by simp
qed

lemma scan_strip:
  assumes "exec_DUE_DATE_PATTERN x = None" and "exec_REPEAT_FREQUENCY_PATTERN x = None"
  shows "strip_tags (x @ CHR '' '' # s) = x @ CHR '' '' # strip_tags s"
  using assms
proof (induction x)
  case Nil
  show ?case by (simp add: match_here_space)
next
  case (Cons a x)
  from scan_due_step(1) [OF Cons.prems(1), of s] scan_due_step(2) [OF Cons.prems(1)]
    scan_repeat_step(1) [OF Cons.prems(2), of s] scan_repeat_step(2) [OF Cons.prems(2)] Cons.IH
  show ?case by simp
qed

lemma strip_no_tags:
  assumes "exec_DUE_DATE_PATTERN x = None" and "exec_REPEAT_FREQUENCY_PATTERN x = None"
  shows "strip_tags x = x"
  using assms
proof (induction x)
  case Nil
  show ?case by simp
next
  case (Cons a x)
  from Cons.prems have "match_due_here (a # x) = None" "exec_DUE_DATE_PATTERN x = None"
    "match_repeat_here (a # x) = None" "exec_REPEAT_FREQUENCY_PATTERN x = None"
    unfolding exec_due_None_Cons exec_repeat_None_Cons by simp_all
  with Cons.IH show ?case by simp
qed

lemma count_due_zero: "exec_DUE_DATE_PATTERN s = None \<Longrightarrow> count_due s = 0"
  by (induction s rule: count_due.induct) (auto split: option.splits)

lemma count_repeat_zero: "exec_REPEAT_FREQUENCY_PATTERN s = None \<Longrightarrow> count_repeat s = 0"
  by (induction s rule: count_repeat.induct) (auto split: option.splits)

lemma hash_free_exec:
  assumes "CHR ''#'' \<notin> set x"
  shows "exec_DUE_DATE_PATTERN x = None" and "exec_REPEAT_FREQUENCY_PATTERN x = None"
  using assms by (induction x) (simp_all add: match_here_hash [OF not_sym])

lemma trim_append_spaces:
  assumes "trimmed c" and "list_all is_space ws"
  shows "trim (c @ ws) = c"
proof (cases c)
  case Nil
  have w: "dropWhile is_space ws = []" using assms(2) by (simp add: list_all_iff)
  show ?thesis unfolding Nil trim_def append_Nil w by simp
next
  case (Cons a c')
  with assms(1) have h: "\<not> is_space a" and l: "\<not> is_space (last c)"
    by (simp_all add: trimmed_def)
  have 1: "dropWhile is_space (c @ ws) = c @ ws" using Cons h by simp
  have ne: "rev c \<noteq> []" using Cons by simp
  have hd: "hd (rev c) = last c" using Cons by (simp add: hd_rev)
  have 2: "dropWhile is_space (rev ws @ rev c) = rev c"
  proof -
    have "\<And>x. x \<in> set (rev ws) \<Longrightarrow> is_space x" using assms(2) by (simp add: list_all_iff)
    then have "dropWhile is_space (rev ws @ rev c) = dropWhile is_space (rev c)"
      by (rule dropWhile_append2)
    also have "\<dots> = rev c"
    proof -
      from ne obtain a' r' where r: "rev c = a' # r'" by (cases "rev c") auto
      with hd l have "\<not> is_space a'" by simp
      then show ?thesis unfolding r by simp
    qed
    finally show ?thesis .
  qed
  show ?thesis by (simp add: trim_def 1 2)
qed

lemma trim_trimmed: "trimmed c \<Longrightarrow> trim c = c"
  using trim_append_spaces [of c "[]"] by simp

lemma due_tag_facts:
  assumes "date_shape d"
  shows "match_due_here (''#due:'' @ d @ r) = Some (d, r)"
    and "exec_REPEAT_FREQUENCY_PATTERN (''#due:'' @ d) = None"
    and "match_repeat_here (''#due:'' @ d @ r) = None"
proof -
  show "match_due_here (''#due:'' @ d @ r) = Some (d, r)"
    using assms by (simp add: match_due_here_Some)
  have m: "match_repeat_here (''#due:'' @ x) = None" for x
    by (simp add: match_repeat_here_def)
  from m [of "d @ r"] show "match_repeat_here (''#due:'' @ d @ r) = None" by simp
  have "exec_REPEAT_FREQUENCY_PATTERN (''due:'' @ d) = None"
    by (rule hash_free_exec(2)) (rule due_tag_chars(2) [OF assms])
  with m [of d] show "exec_REPEAT_FREQUENCY_PATTERN (''#due:'' @ d) = None" by simp
qed

lemma repeat_tag_facts:
  shows "match_repeat_here (''#repeat:'' @ frequency_word f @ r) = Some (f, r)"
    and "exec_DUE_DATE_PATTERN (''#repeat:'' @ frequency_word f) = None"
    and "match_due_here (''#repeat:'' @ frequency_word f @ r) = None"
proof -
  show "match_repeat_here (''#repeat:'' @ frequency_word f @ r) = Some (f, r)"
    by (simp add: match_repeat_here_Some)
  have m: "match_due_here (''#repeat:'' @ x) = None" for x
    by (simp add: match_due_here_def)
  from m [of "frequency_word f @ r"]
  show "match_due_here (''#repeat:'' @ frequency_word f @ r) = None" by simp
  have "exec_DUE_DATE_PATTERN (''repeat:'' @ frequency_word f) = None"
    by (rule hash_free_exec(1)) (rule repeat_tag_chars(2))
  with m [of "frequency_word f"] show "exec_DUE_DATE_PATTERN (''#repeat:'' @ frequency_word f) = None"
    by simp
qed

lemma match_due_scan:
  assumes "match_due_here s = Some (x, r)"
  shows "count_due s = Suc (count_due r)" and "exec_DUE_DATE_PATTERN s = Some x"
    and "strip_tags s = strip_tags r"
proof -
  from assms obtain a s' where s: "s = a # s'"
    by (cases s) (simp_all add: match_due_here_def)
  from assms show "count_due s = Suc (count_due r)" "exec_DUE_DATE_PATTERN s = Some x"
    "strip_tags s = strip_tags r"
    unfolding s by simp_all
qed

lemma match_repeat_scan:
  assumes "match_repeat_here s = Some (f, r)"
  shows "count_repeat s = Suc (count_repeat r)" and "exec_REPEAT_FREQUENCY_PATTERN s = Some f"
    and "match_due_here s = None \<Longrightarrow> strip_tags s = strip_tags r"
proof -
  from assms obtain a s' where s: "s = a # s'"
    by (cases s) (simp_all add: match_repeat_here_def)
  from assms show "count_repeat s = Suc (count_repeat r)"
    "exec_REPEAT_FREQUENCY_PATTERN s = Some f"
    unfolding s by simp_all
  from assms show "strip_tags s = strip_tags r" if "match_due_here s = None"
    using that unfolding s by simp
qed

lemma extract_plain:
  assumes c: "exec_DUE_DATE_PATTERN c = None" "exec_REPEAT_FREQUENCY_PATTERN c = None"
    and t: "trimmed c"
  shows "extract_tags c = Inr (Tags c None None)"
  using c t
  by (simp add: extract_tags_def count_due_zero count_repeat_zero strip_no_tags trim_trimmed)

lemma extract_with_due:
  assumes c: "exec_DUE_DATE_PATTERN c = None" "exec_REPEAT_FREQUENCY_PATTERN c = None"
    and t: "trimmed c"
    and md: "match_due_here D = Some (x, [])"
    and er: "exec_REPEAT_FREQUENCY_PATTERN D = None"
  shows "extract_tags (c @ CHR '' '' # D) = Inr (Tags c (Some x) None)"
proof -
  have 1: "count_due (c @ CHR '' '' # D) = 1"
    by (simp add: scan_due_count [OF c(1)] match_due_scan(1) [OF md])
  have 2: "count_repeat (c @ CHR '' '' # D) = 0"
    by (simp add: scan_repeat_count [OF c(2)] count_repeat_zero [OF er])
  have 3: "exec_DUE_DATE_PATTERN (c @ CHR '' '' # D) = Some x"
    by (simp add: scan_due_exec [OF c(1)] match_due_scan(2) [OF md])
  have 4: "exec_REPEAT_FREQUENCY_PATTERN (c @ CHR '' '' # D) = None"
    by (simp add: scan_repeat_exec [OF c(2)] er)
  have 5: "strip_tags (c @ CHR '' '' # D) = c @ '' ''"
    by (simp add: scan_strip [OF c] match_due_scan(3) [OF md])
  have 6: "trim (c @ '' '') = c"
    by (rule trim_append_spaces [OF t]) (simp add: is_space_def)
  show ?thesis
    unfolding extract_tags_def 1 2 3 4 5 6
    by (simp add: MAX_DUE_TAG_COUNT_def MAX_REPEAT_TAG_COUNT_def)
qed

lemma extract_with_repeat:
  assumes c: "exec_DUE_DATE_PATTERN c = None" "exec_REPEAT_FREQUENCY_PATTERN c = None"
    and t: "trimmed c"
    and mr: "match_repeat_here R = Some (f, [])"
    and ed: "exec_DUE_DATE_PATTERN R = None"
    and md: "match_due_here R = None"
  shows "extract_tags (c @ CHR '' '' # R) = Inr (Tags c None (Some f))"
proof -
  have 1: "count_due (c @ CHR '' '' # R) = 0"
    by (simp add: scan_due_count [OF c(1)] count_due_zero [OF ed])
  have 2: "count_repeat (c @ CHR '' '' # R) = 1"
    by (simp add: scan_repeat_count [OF c(2)] match_repeat_scan(1) [OF mr])
  have 3: "exec_DUE_DATE_PATTERN (c @ CHR '' '' # R) = None"
    by (simp add: scan_due_exec [OF c(1)] ed)
  have 4: "exec_REPEAT_FREQUENCY_PATTERN (c @ CHR '' '' # R) = Some f"
    by (simp add: scan_repeat_exec [OF c(2)] match_repeat_scan(2) [OF mr])
  have 5: "strip_tags (c @ CHR '' '' # R) = c @ '' ''"
    by (simp add: scan_strip [OF c] match_repeat_scan(3) [OF mr md])
  have 6: "trim (c @ '' '') = c"
    by (rule trim_append_spaces [OF t]) (simp add: is_space_def)
  show ?thesis
    unfolding extract_tags_def 1 2 3 4 5 6
    by (simp add: MAX_DUE_TAG_COUNT_def MAX_REPEAT_TAG_COUNT_def)
qed

lemma extract_with_both:
  assumes c: "exec_DUE_DATE_PATTERN c = None" "exec_REPEAT_FREQUENCY_PATTERN c = None"
    and t: "trimmed c"
    and md: "match_due_here (D @ CHR '' '' # R) = Some (x, CHR '' '' # R)"
    and er: "exec_REPEAT_FREQUENCY_PATTERN D = None"
    and mr: "match_repeat_here R = Some (f, [])"
    and ed: "exec_DUE_DATE_PATTERN R = None"
    and mdr: "match_due_here R = None"
  shows "extract_tags (c @ CHR '' '' # D @ CHR '' '' # R) = Inr (Tags c (Some x) (Some f))"
proof -
  have 1: "count_due (c @ CHR '' '' # D @ CHR '' '' # R) = 1"
    by (simp add: scan_due_count [OF c(1)] match_due_scan(1) [OF md] match_here_space
        count_due_zero [OF ed])
  have 2: "count_repeat (c @ CHR '' '' # D @ CHR '' '' # R) = 1"
    by (simp add: scan_repeat_count [OF c(2)] scan_repeat_count [OF er]
        match_repeat_scan(1) [OF mr])
  have 3: "exec_DUE_DATE_PATTERN (c @ CHR '' '' # D @ CHR '' '' # R) = Some x"
    by (simp add: scan_due_exec [OF c(1)] match_due_scan(2) [OF md])
  have 4: "exec_REPEAT_FREQUENCY_PATTERN (c @ CHR '' '' # D @ CHR '' '' # R) = Some f"
    by (simp add: scan_repeat_exec [OF c(2)] scan_repeat_exec [OF er]
        match_repeat_scan(2) [OF mr])
  have 5: "strip_tags (c @ CHR '' '' # D @ CHR '' '' # R) = c @ ''  ''"
    by (simp add: scan_strip [OF c] match_due_scan(3) [OF md] match_here_space
        match_repeat_scan(3) [OF mr mdr])
  have 6: "trim (c @ ''  '') = c"
    by (rule trim_append_spaces [OF t]) (simp add: is_space_def)
  show ?thesis
    unfolding extract_tags_def 1 2 3 4 5 6
    by (simp add: MAX_DUE_TAG_COUNT_def MAX_REPEAT_TAG_COUNT_def)
qed

lemma extract_tags_rendered:
  assumes c: "exec_DUE_DATE_PATTERN c = None" "exec_REPEAT_FREQUENCY_PATTERN c = None"
    and t: "trimmed c"
    and d: "case due of None \<Rightarrow> True | Some x \<Rightarrow> date_shape x"
  shows "extract_tags
           (c @ (case due of None \<Rightarrow> [] | Some x \<Rightarrow> '' #due:'' @ x)
              @ (case rep of None \<Rightarrow> [] | Some f \<Rightarrow> '' #repeat:'' @ frequency_word f))
         = Inr (Tags c due rep)"
proof (cases due)
  case None
  show ?thesis
  proof (cases rep)
    case n: None
    show ?thesis using None n extract_plain [OF c t] by simp
  next
    case (Some f)
    define R where "R = ''#repeat:'' @ frequency_word f"
    have eq: "c @ [] @ '' #repeat:'' @ frequency_word f = c @ CHR '' '' # R"
      by (simp add: R_def)
    have "extract_tags (c @ CHR '' '' # R) = Inr (Tags c None (Some f))"
      using repeat_tag_facts(1) [of f "[]"] repeat_tag_facts(2) [of f] repeat_tag_facts(3) [of f "[]"]
      unfolding R_def [symmetric] append_Nil2
      by (intro extract_with_repeat [OF c t])
    then show ?thesis using None Some eq by simp
  qed
next
  case (Some x)
  with d have sh: "date_shape x" by simp
  define D where "D = ''#due:'' @ x"
  show ?thesis
  proof (cases rep)
    case None
    have eq: "c @ '' #due:'' @ x @ [] = c @ CHR '' '' # D"
      by (simp add: D_def)
    have "extract_tags (c @ CHR '' '' # D) = Inr (Tags c (Some x) None)"
      using due_tag_facts(1) [OF sh, of "[]"] due_tag_facts(2) [OF sh]
      unfolding D_def [symmetric] append_Nil2
      by (intro extract_with_due [OF c t])
    then show ?thesis using None Some eq by simp
  next
    case f: (Some f)
    define R where "R = ''#repeat:'' @ frequency_word f"
    have eq: "c @ '' #due:'' @ x @ '' #repeat:'' @ frequency_word f = c @ CHR '' '' # D @ CHR '' '' # R"
      by (simp add: D_def R_def)
    have md: "match_due_here (D @ CHR '' '' # R) = Some (x, CHR '' '' # R)"
      using due_tag_facts(1) [OF sh, of "CHR '' '' # R"] by (simp add: D_def)
    have er: "exec_REPEAT_FREQUENCY_PATTERN D = None"
      using due_tag_facts(2) [OF sh] by (simp only: D_def)
    have "extract_tags (c @ CHR '' '' # D @ CHR '' '' # R) = Inr (Tags c (Some x) (Some f))"
      using repeat_tag_facts(1) [of f "[]"] repeat_tag_facts(2) [of f] repeat_tag_facts(3) [of f "[]"]
      unfolding R_def [symmetric] append_Nil2
      by (intro extract_with_both [OF c t md er])
    then show ?thesis using f Some eq by simp
  qed
qed

subsection \<open>Rendered lines\<close>

lemma indent_level_replicate: "indent_level (replicate (4 * k) CHR '' '') = k"
  by (simp add: indent_level_def)

lemma printable_task_text:
  assumes "printable t"
  shows "extract_tags (task_text t) = Inr (Tags (content t) (dueDate t) (repeatFrequency t))"
    and "list_all (\<lambda>c. \<not> is_line_terminator c) (task_text t)"
proof -
  obtain i c s d r rl ln p subs where t: "t = Task i c s d r rl ln p subs" by (cases t)
  from assms have pc: "plain_text c" and pd: "case d of None \<Rightarrow> True | Some x \<Rightarrow> date_shape x"
    by (simp_all add: t)
  from pc have c: "exec_DUE_DATE_PATTERN c = None" "exec_REPEAT_FREQUENCY_PATTERN c = None"
    "trimmed c" "list_all (\<lambda>c. \<not> is_line_terminator c) c"
    by (simp_all add: plain_text_def)
  show "extract_tags (task_text t) = Inr (Tags (content t) (dueDate t) (repeatFrequency t))"
    using extract_tags_rendered [OF c(1,2,3) pd, of r] by (simp add: t task_text_def)
  have "list_all (\<lambda>c. \<not> is_line_terminator c) (case d of None \<Rightarrow> [] | Some x \<Rightarrow> '' #due:'' @ x)"
    using pd due_tag_chars(3) by (cases d) (simp_all add: is_line_terminator_def)
  moreover have "list_all (\<lambda>c. \<not> is_line_terminator c)
      (case r of None \<Rightarrow> [] | Some f \<Rightarrow> '' #repeat:'' @ frequency_word f)"
    using repeat_tag_chars(3) by (cases r) (simp_all add: is_line_terminator_def)
  ultimately show "list_all (\<lambda>c. \<not> is_line_terminator c) (task_text t)"
    using c(4) by (simp add: t task_text_def)
qed

lemma exec_task_line:
  assumes "list_all (\<lambda>c. \<not> is_line_terminator c) txt" and "x = CHR ''x'' \<or> x = CHR '' ''"
  shows "exec_TASK_LINE_PATTERN (replicate n CHR '' '' @ ''- ['' @ [x] @ ''] '' @ txt) =
           Some (replicate n CHR '' '', x = CHR ''x'', txt)"
proof -
  let ?rest = "''- ['' @ [x] @ ''] '' @ txt"
  have sp: "\<And>c. c \<in> set (replicate n CHR '' '') \<Longrightarrow> is_space c" by (simp add: is_space_def)
  have ns: "\<not> is_space (CHR ''-'')" by (simp add: is_space_def)
  have d: "dropWhile is_space (replicate n CHR '' '' @ ?rest) = ?rest"
    using dropWhile_append2 [of "replicate n CHR '' ''" is_space ?rest] sp ns by simp
  have t: "takeWhile is_space (replicate n CHR '' '' @ ?rest) = replicate n CHR '' ''"
    using takeWhile_append2 [of "replicate n CHR '' ''" is_space ?rest] sp ns by simp
  have w: "takeWhile (\<lambda>c. \<not> is_line_terminator c) txt = txt"
    using assms(1) by (simp add: list_all_iff)
  show ?thesis
    unfolding exec_TASK_LINE_PATTERN_def d t using assms(2) w by auto
qed

lemma not_header_task_line:
  "\<not> test_H1_HEADER_PATTERN (replicate n CHR '' '' @ CHR ''-'' # s)"
  "\<not> test_H2_HEADER_PATTERN (replicate n CHR '' '' @ CHR ''-'' # s)"
  by (cases n; simp add: test_H1_HEADER_PATTERN_def test_H2_HEADER_PATTERN_def)+

lemma classify_task_line:
  assumes "printable t"
  shows "classify_line (task_line k t) =
           TaskLine (replicate (4 * k) CHR '' '') (status t = Done) (task_text t)"
proof -
  let ?x = "if status t = Done then CHR ''x'' else CHR '' ''"
  have e: "task_line k t = replicate (4 * k) CHR '' '' @ ''- ['' @ [?x] @ ''] '' @ task_text t"
    by (simp add: task_line_def)
  have h: "\<not> test_H1_HEADER_PATTERN (task_line k t)" "\<not> test_H2_HEADER_PATTERN (task_line k t)"
    by (simp_all add: e not_header_task_line)
  have x: "exec_TASK_LINE_PATTERN (task_line k t) =
      Some (replicate (4 * k) CHR '' '', ?x = CHR ''x'', task_text t)"
    unfolding e by (rule exec_task_line [OF printable_task_text(2) [OF assms]]) simp
  show ?thesis unfolding classify_line_def using h x by simp
qed

lemma classify_title: "classify_line (''# '' @ t) = Title t"
  by (simp add: classify_line_def test_H1_HEADER_PATTERN_def)

lemma classify_section: "classify_line (''## '' @ n) = Section n"
  by (simp add: classify_line_def test_H1_HEADER_PATTERN_def test_H2_HEADER_PATTERN_def)

lemma classify_empty: "classify_line [] = Other"
  by (simp add: classify_line_def test_H1_HEADER_PATTERN_def test_H2_HEADER_PATTERN_def
      exec_TASK_LINE_PATTERN_def)

lemma no_LF_task_line:
  assumes "printable t"
  shows "CHR 0x0A \<notin> set (task_line k t)"
proof -
  from printable_task_text(2) [OF assms] have "CHR 0x0A \<notin> set (task_text t)"
    by (auto simp: list_all_iff is_line_terminator_def)
  then show ?thesis by (auto simp: task_line_def)
qed

lemma no_LF_render:
  "printable t \<Longrightarrow> \<forall>l \<in> set (render_task k t). CHR 0x0A \<notin> set l"
  "printable_all ts \<Longrightarrow> \<forall>l \<in> set (render_forest k ts). CHR 0x0A \<notin> set l"
proof (induction k t and k ts rule: render_task_render_forest.induct)
  case (1 depth i c s d r rl ln p subs)
  then show ?case using no_LF_task_line [of "Task i c s d r rl ln p subs" depth] by simp
next
  case (2 depth)
  then show ?case by simp
next
  case (3 depth t ts)
  then show ?case by auto
qed

subsection \<open>The builder on a rendered forest\<close>

lemma builder_step_task':
  assumes c: "classify_line line = TaskLine indent checked txt"
    and l: "indent_level indent = k"
    and x: "extract_tags txt = Inr (Tags c d r)"
    and inv: "stack_ok b"
    and k: "k \<le> last_depth (erase_all (b_forest b))"
  shows "\<exists>b'. builder_step pid b (n, line) = Inr b' \<and> b_title b' = b_title b \<and>
           b_section b' = b_section b \<and>
           erase_all (b_forest b') =
             graft k [Node c (if checked then Done
                              else (case b_section b of None \<Rightarrow> Todo | Some s \<Rightarrow> s)) d r []]
               (erase_all (b_forest b)) \<and>
           stack_ok b' \<and> last_depth (erase_all (b_forest b')) = Suc k"
proof -
  from builder_step_task [OF c l x inv k, of pid n] obtain b' where
    b: "builder_step pid b (n, line) = Inr b'" "b_title b' = b_title b"
      "b_section b' = b_section b"
      "erase_all (b_forest b') =
             graft k [Node c (if checked then Done
                              else (case b_section b of None \<Rightarrow> Todo | Some s \<Rightarrow> s)) d r []]
               (erase_all (b_forest b))"
      "stack_ok b'"
    by blast
  have "last_depth (erase_all (b_forest b')) = Suc k"
    unfolding b(4) using k by (rule last_depth_graft_leaf)
  with b show ?thesis by blast
qed

lemma render_builds:
  shows "stack_ok b \<Longrightarrow> k \<le> last_depth (erase_all (b_forest b)) \<Longrightarrow> b_section b = Some s \<Longrightarrow>
      settled s t \<Longrightarrow> printable t \<Longrightarrow> builds pid b n (render_task k t) k [erase t]"
    and "stack_ok b \<Longrightarrow> k \<le> last_depth (erase_all (b_forest b)) \<Longrightarrow> b_section b = Some s \<Longrightarrow>
      settled_all s ts \<Longrightarrow> printable_all ts \<Longrightarrow>
      builds pid b n (render_forest k ts) k (erase_all ts)"
proof (induction k t and k ts arbitrary: b n and b n rule: render_task_render_forest.induct)
  case (1 depth i c st d r rl ln p subs)
  let ?t = "Task i c st d r rl ln p subs"
  have pt: "printable ?t" by (rule "1.prems"(5))
  have st: "(if status ?t = Done then Done else (case b_section b of None \<Rightarrow> Todo | Some s \<Rightarrow> s)) = st"
    using "1.prems"(3,4) by auto
  from builder_step_task' [OF classify_task_line [OF pt] indent_level_replicate
      printable_task_text(1) [OF pt] "1.prems"(1,2), of pid n]
  obtain b1 where b1: "builder_step pid b (n, task_line depth ?t) = Inr b1"
    "b_title b1 = b_title b" "b_section b1 = b_section b"
    "erase_all (b_forest b1) = graft depth [Node c st d r []] (erase_all (b_forest b))"
    "stack_ok b1" "last_depth (erase_all (b_forest b1)) = Suc depth"
    unfolding st by auto
  have "builds pid b1 (Suc n) (render_forest (Suc depth) subs) (Suc depth) (erase_all subs)"
    using "1.IH" [of b1 "Suc n"] b1 "1.prems" by simp
  then obtain b2 where b2: "builder_run pid b1 (Suc n) (render_forest (Suc depth) subs) = Inr b2"
    "b_title b2 = b_title b1" "b_section b2 = b_section b1"
    "erase_all (b_forest b2) = graft (Suc depth) (erase_all subs) (erase_all (b_forest b1))"
    "stack_ok b2" "Suc depth \<le> last_depth (erase_all (b_forest b2))"
    unfolding builds_def by blast
  have "erase_all (b_forest b2) = graft depth [erase ?t] (erase_all (b_forest b))"
    unfolding b2(4) b1(4) using graft_graft_sub [OF "1.prems"(2)] by simp
  then show ?case
    unfolding builds_def using b1 b2 by simp
next
  case (2 depth)
  then show ?case by (simp add: builds_def graft_Nil)
next
  case (3 depth t ts)
  have "builds pid b n (render_task depth t) depth [erase t]"
    using "3.IH"(1) [of b n] "3.prems" by simp
  then obtain b1 where b1: "builder_run pid b n (render_task depth t) = Inr b1"
    "b_title b1 = b_title b" "b_section b1 = b_section b"
    "erase_all (b_forest b1) = graft depth [erase t] (erase_all (b_forest b))"
    "stack_ok b1" "depth \<le> last_depth (erase_all (b_forest b1))"
    unfolding builds_def by blast
  have "builds pid b1 (n + length (render_task depth t)) (render_forest depth ts) depth (erase_all ts)"
    using "3.IH"(2) [of b1] b1 "3.prems" by simp
  then obtain b2 where
    b2: "builder_run pid b1 (n + length (render_task depth t)) (render_forest depth ts) = Inr b2"
    "b_title b2 = b_title b1" "b_section b2 = b_section b1"
    "erase_all (b_forest b2) = graft depth (erase_all ts) (erase_all (b_forest b1))"
    "stack_ok b2" "depth \<le> last_depth (erase_all (b_forest b2))"
    unfolding builds_def by blast
  have "erase_all (b_forest b2) = graft depth (erase_all (t # ts)) (erase_all (b_forest b))"
    unfolding b2(4) b1(4) using graft_append [OF "3.prems"(2)] by simp
  then show ?case
    unfolding builds_def using b1 b2 by (simp add: builder_run_append)
qed

subsection \<open>Sections and the document\<close>

lemma settled_all_filter:
  "list_all (\<lambda>t. settled (status t) t) ts \<Longrightarrow> settled_all s (filter (\<lambda>t. status t = s) ts)"
  by (induction ts) auto

lemma printable_all_filter: "printable_all ts \<Longrightarrow> printable_all (filter P ts)"
  by (induction ts) auto

lemma stack_ok_section: "stack_ok (b\<lparr>b_section := x\<rparr>) = stack_ok b"
  by (simp add: stack_ok_def)

lemma stack_ok_title: "stack_ok (b\<lparr>b_title := x\<rparr>) = stack_ok b"
  by (simp add: stack_ok_def)

lemma builder_step_section:
  "classify_line line = Section name \<Longrightarrow>
     builder_step pid b (n, line) = Inr (b\<lparr>b_section := Some (section_status name)\<rparr>)"
  by (simp add: builder_step_def)

lemma builder_step_title:
  "classify_line line = Title x \<Longrightarrow> builder_step pid b (n, line) = Inr (b\<lparr>b_title := x\<rparr>)"
  by (simp add: builder_step_def)

lemma builder_step_other:
  "classify_line line = Other \<Longrightarrow> builder_step pid b (n, line) = Inr b"
  by (simp add: builder_step_def)

lemma section_builds:
  assumes so: "stack_ok b" and n: "section_status name = s"
    and se: "list_all (\<lambda>t. settled (status t) t) ts" and pr: "printable_all ts"
  shows "\<exists>b'. builder_run pid b n0 (render_section name s ts) = Inr b' \<and>
           b_title b' = b_title b \<and>
           erase_all (b_forest b') =
             erase_all (b_forest b) @ erase_all (filter (\<lambda>t. status t = s) ts) \<and>
           stack_ok b'"
proof (cases "filter (\<lambda>t. status t = s) ts = []")
  case True
  then show ?thesis using so by (simp add: render_section_def)
next
  case False
  let ?bucket = "filter (\<lambda>t. status t = s) ts"
  let ?b1 = "b\<lparr>b_section := Some s\<rparr>"
  have step: "builder_step pid b (n0, ''## '' @ name) = Inr ?b1"
    using builder_step_section [OF classify_section, of pid b n0 name] n by simp
  have p1: "stack_ok ?b1" using so by (simp add: stack_ok_section)
  have p2: "0 \<le> last_depth (erase_all (b_forest ?b1))" by simp
  have p3: "b_section ?b1 = Some s" by simp
  have p4: "settled_all s ?bucket" by (rule settled_all_filter [OF se])
  have p5: "printable_all ?bucket" by (rule printable_all_filter [OF pr])
  have "builds pid ?b1 (Suc n0) (render_forest 0 ?bucket) 0 (erase_all ?bucket)"
    by (rule render_builds(2) [OF p1 p2 p3 p4 p5])
  then obtain b' where "builder_run pid ?b1 (Suc n0) (render_forest 0 ?bucket) = Inr b'"
    "b_title b' = b_title b" "erase_all (b_forest b') = erase_all (b_forest b) @ erase_all ?bucket"
    "stack_ok b'"
    unfolding builds_def by auto
  then show ?thesis using False step by (simp add: render_section_def)
qed

lemma no_LF_section:
  assumes "printable_all ts" and "CHR 0x0A \<notin> set name"
  shows "\<forall>l \<in> set (render_section name s ts). CHR 0x0A \<notin> set l"
proof -
  have pf: "printable_all (filter (\<lambda>t. status t = s) ts)"
    by (rule printable_all_filter [OF assms(1)])
  from no_LF_render(2) [OF pf, of 0] assms(2) show ?thesis
    by (simp add: render_section_def Let_def)
qed

lemma builder_run_append_Inr:
  "builder_run pid b n xs = Inr b' \<Longrightarrow>
     builder_run pid b n (xs @ ys) = builder_run pid b' (n + length xs) ys"
  by (simp add: builder_run_append)

lemma builder_run_Cons_Inr:
  "builder_step pid b (n, l) = Inr b' \<Longrightarrow>
     builder_run pid b n (l # ls) = builder_run pid b' (Suc n) ls"
  by simp

lemma render_lines_parse:
  assumes can: "canonical ts"
  shows "\<exists>b'. builder_run pid
                 \<lparr>b_title = t0, b_forest = [], b_stack = [], b_section = None, b_counter = 1\<rparr>
                 1 (render_lines title' ts @ [[]]) = Inr b' \<and>
              b_title b' = title' \<and> erase_all (b_forest b') = erase_all ts"
proof -
  let ?b0 = "\<lparr>b_title = t0, b_forest = [], b_stack = [], b_section = None, b_counter = 1\<rparr>"
  let ?b1 = "?b0\<lparr>b_title := title'\<rparr>"
  let ?todo = "render_section ''Todo'' Todo ts"
  let ?doing = "render_section ''Doing'' Doing ts"
  let ?done = "render_section ''Done'' Done ts"
  let ?n2 = "Suc 1"
  let ?n3 = "?n2 + length ?todo"
  let ?n4 = "?n3 + length ?doing"
  let ?n5 = "?n4 + length ?done"
  from can have g: "grouped ts" and se: "list_all (\<lambda>t. settled (status t) t) ts"
    and pr: "printable_all ts"
    by (simp_all add: canonical_def)
  have s0: "builder_step pid ?b0 (1, ''# '' @ title') = Inr ?b1"
    by (rule builder_step_title [OF classify_title])
  have ok1: "stack_ok ?b1" by (simp add: stack_ok_def)
  have st: "section_status ''Todo'' = Todo" "section_status ''Doing'' = Doing"
    "section_status ''Done'' = Done"
    by (simp_all add: section_status_def)
  from section_builds [OF ok1 st(1) se pr, of pid ?n2]
  obtain b2 where b2: "builder_run pid ?b1 ?n2 ?todo = Inr b2" "b_title b2 = title'"
    "erase_all (b_forest b2) = erase_all (filter (\<lambda>t. status t = Todo) ts)" "stack_ok b2"
    by auto
  from section_builds [OF b2(4) st(2) se pr, of pid ?n3]
  obtain b3 where b3: "builder_run pid b2 ?n3 ?doing = Inr b3" "b_title b3 = title'"
    "erase_all (b_forest b3) = erase_all (filter (\<lambda>t. status t = Todo) ts)
       @ erase_all (filter (\<lambda>t. status t = Doing) ts)" "stack_ok b3"
    using b2(2,3) by auto
  from section_builds [OF b3(4) st(3) se pr, of pid ?n4]
  obtain b4 where b4: "builder_run pid b3 ?n4 ?done = Inr b4"
    "b_title b4 = title'"
    "erase_all (b_forest b4) = erase_all (filter (\<lambda>t. status t = Todo) ts)
       @ erase_all (filter (\<lambda>t. status t = Doing) ts)
       @ erase_all (filter (\<lambda>t. status t = Done) ts)" "stack_ok b4"
    using b3(2,3) by auto
  have last: "builder_step pid b4 (?n5, []) = Inr b4"
    by (rule builder_step_other [OF classify_empty])
  have "builder_run pid ?b0 1 (render_lines title' ts @ [[]]) =
      builder_run pid ?b0 1 ((''# '' @ title') # (?todo @ (?doing @ (?done @ [[]]))))"
    by (simp add: render_lines_def)
  also have "\<dots> = builder_run pid ?b1 ?n2 (?todo @ (?doing @ (?done @ [[]])))"
    by (rule builder_run_Cons_Inr [OF s0])
  also have "\<dots> = builder_run pid b2 ?n3 (?doing @ (?done @ [[]]))"
    by (rule builder_run_append_Inr [OF b2(1)])
  also have "\<dots> = builder_run pid b3 ?n4 (?done @ [[]])"
    by (rule builder_run_append_Inr [OF b3(1)])
  also have "\<dots> = builder_run pid b4 ?n5 [[]]"
    by (rule builder_run_append_Inr [OF b4(1)])
  also have "\<dots> = builder_run pid b4 (Suc ?n5) []"
    by (rule builder_run_Cons_Inr [OF last])
  also have "\<dots> = Inr b4" by simp
  finally have run: "builder_run pid ?b0 1 (render_lines title' ts @ [[]]) = Inr b4" .
  have "erase_all (b_forest b4) = erase_all ts"
    unfolding b4(3) erase_all_append [symmetric] using g unfolding grouped_def by simp
  with run b4(2) show ?thesis by blast
qed

lemma split_renderDocument:
  assumes "printable_all ts" and "CHR 0x0A \<notin> set title'"
  shows "split_lines (renderDocument title' ts) = render_lines title' ts @ [[]]"
  unfolding renderDocument_def
proof (rule split_lines_unlines)
  show "\<forall>l\<in>set (render_lines title' ts). CHR 0x0A \<notin> set l"
    using assms(2) no_LF_section [OF assms(1), of "''Todo''" Todo]
      no_LF_section [OF assms(1), of "''Doing''" Doing]
      no_LF_section [OF assms(1), of "''Done''" Done]
    by (auto simp: render_lines_def)
qed

subsection \<open>Identity recovery\<close>

lemma carry_same_shape:
  "erase t = erase e \<Longrightarrow> well_parented p e \<Longrightarrow> with_ids (carry_task (Some e) p t) = with_ids e"
  "erase_all ts = erase_all es \<Longrightarrow> well_parented_all p es \<Longrightarrow>
     with_ids_all (carry_ids es p ts) = with_ids_all es"
proof (induction "Some e" p t and es p ts arbitrary: e rule: carry_task_carry_ids.induct)
  case (1 p i c s d r rl ln q subs)
  then show ?case by (cases e) auto
next
  case (2 es p)
  then show ?case by (cases es) auto
next
  case (3 es p t ts)
  then show ?case by (cases es) auto
qed

subsection \<open>The round-trip law\<close>

text \<open>
  C2, as the design's parser and renderer have it. For a forest in canonical form (the
  top-level tasks in the order of the sections; below a top-level task every task done or
  of the section's status; contents plain text; due dates of the shape of a date) and a
  title without a line feed, parsing the rendered document succeeds and gives back the
  title and the forest in content, status, dueDate, repeatFrequency and hierarchy. When
  the forest itself is supplied as the previous tree, and its parent ids agree with its
  hierarchy, the ids and parent ids are given back as well.
\<close>

theorem render_parse_round_trip:
  assumes "canonical ts" and "CHR 0x0A \<notin> set title'"
  shows "(\<exists>forest. parseDocument pid t0 (renderDocument title' ts) None = Inr (title', forest) \<and>
            erase_all forest = erase_all ts) \<and>
         (well_parented_all None ts \<longrightarrow>
            (\<exists>forest. parseDocument pid t0 (renderDocument title' ts) (Some ts) =
                 Inr (title', forest) \<and>
               with_ids_all forest = with_ids_all ts))"
proof -
  from assms(1) have pr: "printable_all ts" by (simp add: canonical_def)
  from render_lines_parse [OF assms(1), of pid t0 title'] obtain b where
    run: "builder_run pid
            \<lparr>b_title = t0, b_forest = [], b_stack = [], b_section = None, b_counter = 1\<rparr>
            1 (render_lines title' ts @ [[]]) = Inr b"
    and t: "b_title b = title'" and e: "erase_all (b_forest b) = erase_all ts"
    by blast
  note sp = split_renderDocument [OF pr assms(2)]
  have 1: "parseDocument pid t0 (renderDocument title' ts) None = Inr (title', b_forest b)"
    unfolding parseDocument_def sp run using t by simp
  have 2: "parseDocument pid t0 (renderDocument title' ts) (Some ts) =
      Inr (title', carry_ids ts None (b_forest b))"
    unfolding parseDocument_def sp run using t by simp
  have 3: "with_ids_all (carry_ids ts None (b_forest b)) = with_ids_all ts"
    if "well_parented_all None ts"
    by (rule carry_same_shape(2) [OF e that])
  from 1 2 3 e show ?thesis by simp
qed

text \<open>
  The forest of the design's end-to-end scenario is canonical, and is read back.
\<close>

theorem render_parse_round_trip_witness:
  "canonical example_forest \<and> CHR 0x0A \<notin> set ''Proj'' \<and> well_parented_all None example_forest \<and>
   (\<exists>forest. parseDocument ''q'' ''Old'' (renderDocument ''Proj'' example_forest) None =
        Inr (''Proj'', forest) \<and> erase_all forest = erase_all example_forest) \<and>
   (\<exists>forest. parseDocument ''q'' ''Old'' (renderDocument ''Proj'' example_forest)
        (Some example_forest) = Inr (''Proj'', forest) \<and>
      with_ids_all forest = with_ids_all example_forest)"
proof -
  have c: "canonical example_forest" by code_simp
  have n: "CHR 0x0A \<notin> set ''Proj''" by simp
  have w: "well_parented_all None example_forest" by (simp add: example_forest_def)
  from render_parse_round_trip [OF c n, of "''q''" "''Old''"] c n w show ?thesis by blast
qed

text \<open>
  C2, as stated, fails on forests that the Tree Builder produces. A document whose Doing
  section stands before its Todo section parses to the forest A (doing), B (todo); its
  rendering puts the Todo section first, and is read back as B, A. A document with a
  checked task and an unchecked subtask in the Todo section parses to P (done) with C
  (todo); its rendering puts both under Done, and C is read back as done.
\<close>

theorem render_parse_round_trip_counterexample:
  "parseDocument ''p'' ''x'' example_sections_swapped None = Inr (''x'', example_swapped_forest) \<and>
   erase_all example_swapped_forest =
     [Node ''A'' Doing None None [], Node ''B'' Todo None None []] \<and>
   map_sum id (\<lambda>r. erase_all (snd r))
     (parseDocument ''p'' ''x'' (renderDocument ''x'' example_swapped_forest) None) =
     Inr [Node ''B'' Todo None None [], Node ''A'' Doing None None []] \<and>
   parseDocument ''p'' ''x'' example_checked_parent None = Inr (''x'', example_checked_forest) \<and>
   erase_all example_checked_forest =
     [Node ''P'' Done None None [Node ''C'' Todo None None []]] \<and>
   map_sum id (\<lambda>r. erase_all (snd r))
     (parseDocument ''p'' ''x'' (renderDocument ''x'' example_checked_forest) None) =
     Inr [Node ''P'' Done None None [Node ''C'' Done None None []]]"
  by code_simp

end
